theory Spec2Isabelle
  imports Main "HOL-Library.Extended_Nat"
begin

section \<open>Loki query splitting: the range partitioner and the partitioned query scheduler\<close>

text \<open>
  The development embeds two source files of the Loki datasource:
  \<^verbatim>\<open>public/app/plugins/datasource/loki/metricTimeSplit.ts\<close> (the partitioner
  \<^verbatim>\<open>getRanges\<close>) and \<^verbatim>\<open>public/app/plugins/datasource/loki/querySplitting.ts\<close>
  (the scheduler \<^verbatim>\<open>runPartitionedQuery\<close>).

  Timestamps, steps and chunk sizes are JavaScript numbers that hold integers
  (milliseconds, as \<^verbatim>\<open>Date.getTime\<close> returns them, before or after 1970); they are
  modelled as \<^typ>\<open>int\<close>. A function result is a sum where the call may throw (\<open>Inl\<close>:
  the thrown error), wrapped in \<^typ>\<open>'a option\<close> where the source has a loop that
  could run forever (\<open>None\<close>: the call does not return).
\<close>

subsection \<open>JavaScript arithmetic on integers\<close>

text \<open>
  \<^verbatim>\<open>a % b\<close> takes the sign of the dividend; \<^verbatim>\<open>Math.trunc(a / b)\<close> rounds towards
  zero. Both are only used below with \<open>b \<noteq> 0\<close>: the callers treat \<open>b = 0\<close>
  (where JavaScript yields \<^verbatim>\<open>NaN\<close> or \<^verbatim>\<open>Infinity\<close>) before they call them.
\<close>

definition js_rem :: "int \<Rightarrow> int \<Rightarrow> int" where
  "js_rem a b = sgn a * (\<bar>a\<bar> mod \<bar>b\<bar>)"

definition js_trunc_div :: "int \<Rightarrow> int \<Rightarrow> int" where
  "js_trunc_div a b = sgn a * sgn b * (\<bar>a\<bar> div \<bar>b\<bar>)"

datatype js_error = JsError string | JsTypeError string | JsRangeError string

subsection \<open>metricTimeSplit.ts\<close>

text \<open>
  \<^verbatim>\<open>expandTimeRange\<close>: the start is moved to a multiple of the step, the end is moved
  up to one. With \<open>step = 0\<close> both remainders are \<^verbatim>\<open>NaN\<close>, \<^verbatim>\<open>NaN !== 0\<close> holds and
  the function returns \<^verbatim>\<open>[NaN, NaN]\<close>, which is the value \<open>None\<close> here.
\<close>

definition expandTimeRange :: "int \<Rightarrow> int \<Rightarrow> int \<Rightarrow> (int \<times> int) option" where
  "expandTimeRange startTime endTime step =
     (if step = 0 then None
      else
        let newStartTime = startTime - js_rem startTime step;
            endStepMod = js_rem endTime step;
            newEndTime = (if endStepMod \<noteq> 0 then endTime + (step - endStepMod) else endTime)
        in Some (newStartTime, newEndTime))"

text \<open>
  The \<^verbatim>\<open>for\<close> loop of \<^verbatim>\<open>getAllPoints\<close>, with the array \<open>result\<close> it pushes to.
  An array cannot grow without bound: \<open>maxLength\<close> is the greatest length an array can
  have on the engine that runs the code (\<open>2\<^sup>3\<^sup>2 - 1\<close> by the language definition, less
  on an engine that gives up earlier), and \<^verbatim>\<open>push\<close> on an array of that length throws
  \<^verbatim>\<open>RangeError: Invalid array length\<close>. Nothing in the source keeps the step positive:
  with a negative step the loop test stays true and the loop ends by that error.
  \<open>maxLength = \<infinity>\<close> is an engine without a limit, on which such a loop never ends.
\<close>

partial_function (option) getAllPoints_loop ::
  "enat \<Rightarrow> int \<Rightarrow> int \<Rightarrow> int \<Rightarrow> int list \<Rightarrow> (js_error + int list) option" where
  "getAllPoints_loop maxLength current alignedEnd step result =
     (if current \<le> alignedEnd
      then (if maxLength \<le> enat (length result)
            then Some (Inl (JsRangeError ''Invalid array length''))
            else getAllPoints_loop maxLength (current + step) alignedEnd step (result @ [current]))
      else Some (Inr result))"

declare getAllPoints_loop.simps [code]

text \<open>
  With \<open>step = 0\<close> the loop test \<^verbatim>\<open>NaN <= NaN\<close> is false and the array stays empty.
\<close>

definition getAllPoints :: "enat \<Rightarrow> int \<Rightarrow> int \<Rightarrow> int \<Rightarrow> (js_error + int list) option" where
  "getAllPoints maxLength startTime endTime step =
     (case expandTimeRange startTime endTime step of
        None \<Rightarrow> Some (Inr [])
      | Some (alignedStart, alignedEnd) \<Rightarrow>
          getAllPoints_loop maxLength alignedStart alignedEnd step [])"

text \<open>
  \<^verbatim>\<open>chunk\<close> of lodash (a library, not part of the repository): an empty array or a
  size below 1 gives no chunk; otherwise the array is cut from the left into slices of
  \<open>size\<close> elements, the last slice holding what is left. The size can be
  \<^verbatim>\<open>Infinity\<close> (\<open>\<infinity>\<close>), which gives the whole array as one slice.
\<close>

fun chunk_loop :: "nat \<Rightarrow> 'a list \<Rightarrow> 'a list list" where
  "chunk_loop n array =
     (if array = [] \<or> n = 0 then []
      else take n array # chunk_loop n (drop n array))"

definition chunk :: "'a list \<Rightarrow> enat \<Rightarrow> 'a list list" where
  "chunk array n =
     (if array = [] \<or> n < 1 then []
      else case n of enat k \<Rightarrow> chunk_loop k array | \<infinity> \<Rightarrow> [array])"

text \<open>
  The callback of \<^verbatim>\<open>forEach\<close>: \<^verbatim>\<open>range.at(-1)\<close> and \<^verbatim>\<open>range[0]\<close> of a reversed
  chunk \<open>rng\<close>; an empty chunk (both \<^verbatim>\<open>undefined\<close>) pushes nothing.
\<close>

definition range_of_chunk :: "int list \<Rightarrow> (int \<times> int) option" where
  "range_of_chunk rng = (if rng = [] then None else Some (last rng, hd rng))"

text \<open>
  \<^verbatim>\<open>getRanges\<close> on an engine whose arrays hold at most \<open>maxLength\<close> elements. The
  arrays made after \<^verbatim>\<open>getAllPoints\<close> are no longer than the array of the points.
\<close>

definition getRanges_limited ::
  "enat \<Rightarrow> int \<Rightarrow> int \<Rightarrow> int \<Rightarrow> int \<Rightarrow> (js_error + (int \<times> int) list) option" where
  "getRanges_limited maxLength startTime endTime step idealRangeSize =
     (if idealRangeSize < 1 then Some (Inl (JsError ''idealRangeSize must be at least 1''))
      else
        let pointsInChunk =
              (if step = 0 then \<infinity>
               else enat (nat (max (js_trunc_div idealRangeSize step) 1)))
        in case getAllPoints maxLength startTime endTime step of
             None \<Rightarrow> None
           | Some (Inl err) \<Rightarrow> Some (Inl err)
           | Some (Inr allPoints) \<Rightarrow>
               Some (Inr (rev (List.map_filter range_of_chunk (chunk (rev allPoints) pointsInChunk)))))"

text \<open>
  \<^verbatim>\<open>getRanges\<close> with no limit on the length of an array. Whatever
  \<open>getRanges_limited\<close> returns on an engine with a limit, \<open>getRanges\<close> returns
  (\<open>getRanges_limited_returns\<close> below); the properties of the ranges returned are stated
  on it.
\<close>

definition getRanges :: "int \<Rightarrow> int \<Rightarrow> int \<Rightarrow> int \<Rightarrow> (js_error + (int \<times> int) list) option" where
  "getRanges startTime endTime step idealRangeSize =
     getRanges_limited \<infinity> startTime endTime step idealRangeSize"

text \<open>
  The points of a range \<open>[a, b]\<close> at a step: \<open>a, a + step, \<dots>\<close> up to \<open>b\<close>.
\<close>

definition point_grid :: "int \<Rightarrow> int \<Rightarrow> int \<Rightarrow> int list" where
  "point_grid a b step = map (\<lambda>k. a + int k * step) [0..<nat ((b - a) div step + 1)]"

subsection \<open>querySplitting.ts\<close>

text \<open>
  The data the scheduler handles. \<open>LoadingState\<close> is the enumeration of
  \<^verbatim>\<open>@grafana/schema\<close>. A time range keeps its two bounds as millisecond
  timestamps (\<^verbatim>\<open>dateTime(start)\<close>, \<^verbatim>\<open>dateTime(end)\<close>; the field \<^verbatim>\<open>raw\<close> repeats
  them). A response has its frames \<open>data\<close> and an optional \<open>state\<close>. A request
  has the fields the scheduler reads or overrides; \<open>targets\<close> stands for everything
  else, which is passed through unchanged. The range of a request is optional because
  the sub-request of an empty partition list carries \<^verbatim>\<open>undefined\<close> there.
\<close>

datatype LoadingState = NotStarted | Loading | Streaming | Done | Error

record TimeRange =
  range_from :: int
  range_to :: int

record 'd DataQueryResponse =
  data :: 'd
  state :: "LoadingState option"

record 'q DataQueryRequest =
  requestId :: string
  req_range :: "TimeRange option"
  intervalMs :: int
  targets :: 'q

text \<open>
  What can be observed of one subscription to the observable that
  \<^verbatim>\<open>runPartitionedQuery\<close> returns, in the order in which it happens:
  \<^item> \<open>RunQuery q\<close>: \<^verbatim>\<open>datasource.runQuery\<close> is called with the sub-request \<open>q\<close>;
  \<^item> \<open>Combined r\<close>: the \<^verbatim>\<open>map\<close> callback has stored \<open>r\<close> in \<^verbatim>\<open>mergedResponse\<close>;
  \<^item> \<open>SubscriberNext r\<close>, \<open>SubscriberError e\<close>, \<open>SubscriberComplete\<close>: the three
    notifications of the caller's subscriber (\<^verbatim>\<open>subscriber.next(r)\<close> and its two
    siblings);
  \<^item> \<open>UnhandledError e\<close>: a sub-query's observable failed and its subscription has no
    error handler, so rxjs reports the error outside the output sequence;
  \<^item> \<open>Unsubscribed\<close>: the caller unsubscribes.
\<close>

datatype ('q, 'd, 'e) event =
    RunQuery "'q DataQueryRequest"
  | Combined "'d DataQueryResponse"
  | SubscriberNext "'d DataQueryResponse"
  | SubscriberError 'e
  | SubscriberComplete
  | UnhandledError 'e
  | Unsubscribed

text \<open>
  The template literal prints \<^verbatim>\<open>requestN\<close>, an array length or less, in decimal.
\<close>

definition digit_char :: "nat \<Rightarrow> char" where
  "digit_char d = ''0123456789'' ! d"

fun string_of_nat :: "nat \<Rightarrow> string" where
  "string_of_nat n =
     (if n < 10 then [digit_char n]
      else string_of_nat (n div 10) @ [digit_char (n mod 10)])"

text \<open>
  When the observable of a sub-query delivers its result: during the call that subscribes
  to it (as an observable made by \<^verbatim>\<open>of()\<close> does) or after the code that subscribed has
  run to its end (as a request over the network does).
\<close>

datatype timing = Synchronous | Asynchronous

text \<open>
  \<open>deliver\<close> places the events of one sub-query: its dispatch, the events of the
  handler of its result, and those that come after the handler has returned. The result
  is the pair of the events of the dispatching call itself and of the events that follow
  later.
\<close>

definition deliver ::
  "timing \<Rightarrow> ('q, 'd, 'e) event \<Rightarrow> ('q, 'd, 'e) event list \<Rightarrow> ('q, 'd, 'e) event list \<Rightarrow>
   ('q, 'd, 'e) event list \<times> ('q, 'd, 'e) event list" where
  "deliver t dispatch handler after =
     (case t of
        Synchronous \<Rightarrow> (dispatch # handler, after)
      | Asynchronous \<Rightarrow> ([dispatch], handler @ after))"

text \<open>
  The caller's subscriber, on the calls of \<^verbatim>\<open>subscriber.next\<close> in the order in which
  they are made. Its state is \<open>None\<close> when the caller never unsubscribes,
  \<open>Some (Suc k)\<close> when the caller unsubscribes on receiving one more value after \<open>k\<close>
  others, and \<open>Some 0\<close> when the caller has unsubscribed: rxjs drops a value passed to
  a closed subscriber. The source never reads the state of the subscriber, so the calls
  it makes do not depend on it.
\<close>

fun subscriber_receives ::
  "nat option \<Rightarrow> ('q, 'd, 'e) event list \<Rightarrow> ('q, 'd, 'e) event list" where
  "subscriber_receives subscriber [] = []"
| "subscriber_receives subscriber (SubscriberNext response # evs) =
     (case subscriber of
        None \<Rightarrow> SubscriberNext response # subscriber_receives None evs
      | Some 0 \<Rightarrow> subscriber_receives (Some 0) evs
      | Some (Suc k) \<Rightarrow>
          (if k = 0
           then SubscriberNext response # Unsubscribed # subscriber_receives (Some 0) evs
           else SubscriberNext response # subscriber_receives (Some k) evs))"
| "subscriber_receives subscriber (ev # evs) = ev # subscriber_receives subscriber evs"

text \<open>
  Modelled from the spec: the collaborators that \<^verbatim>\<open>querySplitting.ts\<close> imports and that
  are not among the sources are parameters of the scheduler.
  \<^item> \<open>runQuery\<close> is \<^verbatim>\<open>datasource.runQuery\<close>, the execution capability
    \<^verbatim>\<open>execute(subRequest) -> Response | fails with ExecutionError\<close>: \<open>Inr r\<close> is an
    observable that delivers the one response \<open>r\<close>, \<open>Inl e\<close> one that fails with
    \<open>e\<close>; \<open>delivery\<close> says when the observable of a sub-request delivers.
  \<^item> \<open>combineResponses\<close> merges the accumulator (\<open>None\<close> before the first merge) with
    a partial response into a new accumulator.
  \<^item> \<open>resultLimitReached\<close> is the limit predicate.

  \<open>sub_request\<close> is the argument of \<^verbatim>\<open>runQuery\<close>, the request with its range and
  its identifier replaced; \<^verbatim>\<open>partition[requestN - 1]\<close> is \<^verbatim>\<open>undefined\<close> outside the
  array.

  \<^verbatim>\<open>next(subscriber, requestN)\<close> returns two lists of events: those of the call itself
  and those that follow later. The handler of a result stores the merged response, sets
  its state, calls \<^verbatim>\<open>next\<close> for the older partition where the chain goes on, and then
  calls \<^verbatim>\<open>subscriber.next\<close>: the events of the inner call of \<^verbatim>\<open>next\<close> come before
  that call of \<^verbatim>\<open>subscriber.next\<close>, what the inner call leaves for later comes after
  the handler. The subscription to a sub-query has no error handler: rxjs reports a
  failure from a timer, after the running code.
\<close>

definition sub_request ::
  "'q DataQueryRequest \<Rightarrow> TimeRange list \<Rightarrow> nat \<Rightarrow> 'q DataQueryRequest" where
  "sub_request request partitions requestN =
     (let subRequestId = requestId request @ ''_'' @ string_of_nat requestN;
          subRange = (if 1 \<le> requestN \<and> requestN \<le> length partitions
                      then Some (partitions ! (requestN - 1)) else None)
      in request\<lparr>req_range := subRange, requestId := subRequestId\<rparr>)"

function next_request ::
  "('q DataQueryRequest \<Rightarrow> timing) \<Rightarrow>
   ('q DataQueryRequest \<Rightarrow> 'e + 'd DataQueryResponse) \<Rightarrow>
   ('d DataQueryResponse option \<Rightarrow> 'd DataQueryResponse \<Rightarrow> 'd DataQueryResponse) \<Rightarrow>
   ('q DataQueryRequest \<Rightarrow> 'd DataQueryResponse \<Rightarrow> bool) \<Rightarrow>
   'q DataQueryRequest \<Rightarrow> TimeRange list \<Rightarrow> 'd DataQueryResponse option \<Rightarrow>
   nat \<Rightarrow> ('q, 'd, 'e) event list \<times> ('q, 'd, 'e) event list" where
  "next_request delivery runQuery combineResponses resultLimitReached request partitions
       mergedResponse requestN =
     (let subRequest = sub_request request partitions requestN
      in case runQuery subRequest of
           Inl err \<Rightarrow> ([RunQuery subRequest], [UnhandledError err])
         | Inr partialResponse \<Rightarrow>
             (let response = combineResponses mergedResponse partialResponse
              in if requestN > 1 \<and> resultLimitReached request response = False
                 then
                   (let streaming = response\<lparr>state := Some Streaming\<rparr>;
                        (now, later) =
                           next_request delivery runQuery combineResponses resultLimitReached
                             request partitions (Some streaming) (requestN - 1)
                    in deliver (delivery subRequest) (RunQuery subRequest)
                         (Combined response # now @ [SubscriberNext streaming]) later)
                 else
                   deliver (delivery subRequest) (RunQuery subRequest)
                     [Combined response, SubscriberNext (response\<lparr>state := Some Done\<rparr>)] []))"
  by pat_completeness auto
termination
proof (relation "measure (\<lambda>(_, _, _, _, _, _, _, requestN). requestN)")
  show "wf (measure (\<lambda>(_, _, _, _, _, _, _, requestN). requestN))"
    by (rule wf_measure)
qed (simp only: in_measure prod.case, elim conjE, linarith)

declare next_request.simps [simp del]

text \<open>
  Subscribing to the observable \<^verbatim>\<open>response\<close> calls \<^verbatim>\<open>next(subscriber, totalRequests)\<close>
  with \<^verbatim>\<open>mergedResponse\<close> still unset. The subscriber \<open>Some 0\<close> stands here for a caller
  that unsubscribes as soon as the call of \<^verbatim>\<open>subscribe\<close> has returned: what that call
  passed to it, it has received.
\<close>

definition response_subscribe ::
  "('q DataQueryRequest \<Rightarrow> timing) \<Rightarrow>
   ('q DataQueryRequest \<Rightarrow> 'e + 'd DataQueryResponse) \<Rightarrow>
   ('d DataQueryResponse option \<Rightarrow> 'd DataQueryResponse \<Rightarrow> 'd DataQueryResponse) \<Rightarrow>
   ('q DataQueryRequest \<Rightarrow> 'd DataQueryResponse \<Rightarrow> bool) \<Rightarrow>
   'q DataQueryRequest \<Rightarrow> TimeRange list \<Rightarrow> nat option \<Rightarrow> ('q, 'd, 'e) event list" where
  "response_subscribe delivery runQuery combineResponses resultLimitReached request partitions
       subscriber =
     (let totalRequests = length partitions;
          (now, later) =
             next_request delivery runQuery combineResponses resultLimitReached request
               partitions None totalRequests
      in if subscriber = Some 0
         then now @ [Unsubscribed] @ subscriber_receives (Some 0) later
         else subscriber_receives subscriber (now @ later))"

text \<open>
  \<^verbatim>\<open>runPartitionedQuery\<close>, followed by one subscription to the observable it returns, on
  an engine whose arrays hold at most \<open>maxLength\<close> elements. Reading
  \<^verbatim>\<open>request.range.from\<close> of a request without a range is a type error; the ideal range
  size is the constant one minute.
\<close>

definition runPartitionedQuery ::
  "enat \<Rightarrow> ('q DataQueryRequest \<Rightarrow> timing) \<Rightarrow>
   ('q DataQueryRequest \<Rightarrow> 'e + 'd DataQueryResponse) \<Rightarrow>
   ('d DataQueryResponse option \<Rightarrow> 'd DataQueryResponse \<Rightarrow> 'd DataQueryResponse) \<Rightarrow>
   ('q DataQueryRequest \<Rightarrow> 'd DataQueryResponse \<Rightarrow> bool) \<Rightarrow>
   'q DataQueryRequest \<Rightarrow> nat option \<Rightarrow> (js_error + ('q, 'd, 'e) event list) option" where
  "runPartitionedQuery maxLength delivery runQuery combineResponses resultLimitReached request
       subscriber =
     (case req_range request of
        None \<Rightarrow> Some (Inl (JsTypeError ''Cannot read properties of undefined''))
      | Some r \<Rightarrow>
          (case getRanges_limited maxLength (range_from r) (range_to r) (intervalMs request)
                  (60 * 1000) of
             None \<Rightarrow> None
           | Some (Inl err) \<Rightarrow> Some (Inl err)
           | Some (Inr ranges) \<Rightarrow>
               Some (Inr (response_subscribe delivery runQuery combineResponses
                            resultLimitReached request
                            (map (\<lambda>(start, stop). \<lparr>range_from = start, range_to = stop\<rparr>) ranges)
                            subscriber))))"

text \<open>
  Readings of a list of events: the sub-requests dispatched, the values passed to the
  caller, the merged responses, the error and completion notifications passed to the
  caller, and what happened after the caller unsubscribed or after a sub-query failed.
\<close>

fun dispatched :: "('q, 'd, 'e) event list \<Rightarrow> 'q DataQueryRequest list" where
  "dispatched [] = []"
| "dispatched (RunQuery q # evs) = q # dispatched evs"
| "dispatched (ev # evs) = dispatched evs"

fun emitted :: "('q, 'd, 'e) event list \<Rightarrow> 'd DataQueryResponse list" where
  "emitted [] = []"
| "emitted (SubscriberNext r # evs) = r # emitted evs"
| "emitted (ev # evs) = emitted evs"

fun combined :: "('q, 'd, 'e) event list \<Rightarrow> 'd DataQueryResponse list" where
  "combined [] = []"
| "combined (Combined r # evs) = r # combined evs"
| "combined (ev # evs) = combined evs"

fun terminal_events :: "('q, 'd, 'e) event list \<Rightarrow> ('q, 'd, 'e) event list" where
  "terminal_events [] = []"
| "terminal_events (SubscriberError e # evs) = SubscriberError e # terminal_events evs"
| "terminal_events (SubscriberComplete # evs) = SubscriberComplete # terminal_events evs"
| "terminal_events (ev # evs) = terminal_events evs"

fun after_unsubscribe :: "('q, 'd, 'e) event list \<Rightarrow> ('q, 'd, 'e) event list" where
  "after_unsubscribe [] = []"
| "after_unsubscribe (Unsubscribed # evs) = evs"
| "after_unsubscribe (ev # evs) = after_unsubscribe evs"

fun after_failure :: "('q, 'd, 'e) event list \<Rightarrow> ('q, 'd, 'e) event list" where
  "after_failure [] = []"
| "after_failure (UnhandledError e # evs) = evs"
| "after_failure (ev # evs) = after_failure evs"

subsection \<open>Scenario data\<close>

text \<open>
  Concrete inputs for the scenarios of the claims: a request \<open>A\<close> over the range of the
  unit test, the three partitions of that test, five consecutive partitions, a
  datasource that answers every sub-request with one frame named after the sub-request,
  one that fails on the sub-request \<open>A_2\<close>, observables that all deliver later or all
  deliver at once, a merge that appends the frames, a limit that is reached at a given
  number of frames, and the array limit of the language definition.
\<close>

definition example_request :: "unit DataQueryRequest" where
  "example_request =
     \<lparr>requestId = ''A'',
      req_range = Some \<lparr>range_from = 1644156603000, range_to = 1644156663000\<rparr>,
      intervalMs = 10000, targets = ()\<rparr>"

definition example_partitions :: "TimeRange list" where
  "example_partitions =
     [\<lparr>range_from = 1644156600000, range_to = 1644156610000\<rparr>,
      \<lparr>range_from = 1644156620000, range_to = 1644156640000\<rparr>,
      \<lparr>range_from = 1644156650000, range_to = 1644156670000\<rparr>]"

definition example_five_partitions :: "TimeRange list" where
  "example_five_partitions =
     [\<lparr>range_from = 0, range_to = 10000\<rparr>,
      \<lparr>range_from = 20000, range_to = 30000\<rparr>,
      \<lparr>range_from = 40000, range_to = 50000\<rparr>,
      \<lparr>range_from = 60000, range_to = 70000\<rparr>,
      \<lparr>range_from = 80000, range_to = 90000\<rparr>]"

definition example_runQuery ::
  "unit DataQueryRequest \<Rightarrow> string + string list DataQueryResponse" where
  "example_runQuery q = Inr \<lparr>data = [requestId q], state = None\<rparr>"

definition example_failing_runQuery ::
  "unit DataQueryRequest \<Rightarrow> string + string list DataQueryResponse" where
  "example_failing_runQuery q =
     (if requestId q = ''A_2'' then Inl ''timeout'' else example_runQuery q)"

definition example_combine ::
  "string list DataQueryResponse option \<Rightarrow> string list DataQueryResponse \<Rightarrow>
   string list DataQueryResponse" where
  "example_combine acc r =
     (case acc of None \<Rightarrow> r | Some a \<Rightarrow> a\<lparr>data := data a @ data r\<rparr>)"

definition example_limit ::
  "nat \<Rightarrow> unit DataQueryRequest \<Rightarrow> string list DataQueryResponse \<Rightarrow> bool" where
  "example_limit n q r = (n \<le> length (data r))"

definition no_limit :: "'q DataQueryRequest \<Rightarrow> 'd DataQueryResponse \<Rightarrow> bool" where
  "no_limit q r = False"

definition all_asynchronous :: "'q DataQueryRequest \<Rightarrow> timing" where
  "all_asynchronous q = Asynchronous"

definition all_synchronous :: "'q DataQueryRequest \<Rightarrow> timing" where
  "all_synchronous q = Synchronous"

definition js_max_array_length :: enat where
  "js_max_array_length = enat 4294967295"

section \<open>The partitioner: auxiliary facts\<close>

declare chunk_loop.simps [simp del]

lemma point_grid_empty: "0 < step \<Longrightarrow> b < a \<Longrightarrow> point_grid a b step = []"
proof -
  assume "0 < step" "b < a"
  then have "(b - a) div step < 0"
    by (simp add: div_neg_pos_less0)
  then show ?thesis
    by (simp add: point_grid_def)
qed

lemma point_grid_rec:
  assumes "0 < step" "a \<le> b"
  shows "point_grid a b step = a # point_grid (a + step) b step"
proof -
  define m where "m = nat ((b - (a + step)) div step + 1)"
  have "b - a = (b - (a + step)) + step"
    by simp
  then have "(b - a) div step = (b - (a + step)) div step + 1"
    using assms(1) by (metis div_add_self2 less_irrefl)
  moreover have "0 \<le> (b - a) div step"
    using assms by (simp add: pos_imp_zdiv_nonneg_iff)
  ultimately have n: "nat ((b - a) div step + 1) = Suc m"
    unfolding m_def by linarith
  have "[0..<Suc m] = 0 # map Suc [0..<m]"
    by (simp add: upt_conv_Cons map_Suc_upt del: upt_Suc)
  then show ?thesis
    unfolding point_grid_def n m_def [symmetric]
    by (simp add: algebra_simps del: upt_Suc)
qed

lemma getAllPoints_loop_grid:
  "0 < step \<Longrightarrow> enat (length acc) \<le> maxLength \<Longrightarrow>
     getAllPoints_loop maxLength cur e step acc =
       (if enat (length acc + length (point_grid cur e step)) \<le> maxLength
        then Some (Inr (acc @ point_grid cur e step))
        else Some (Inl (JsRangeError ''Invalid array length'')))"
proof (induction "nat (e - cur + 1)" arbitrary: cur acc rule: less_induct)
  case less
  note pos = less.prems(1) and fits = less.prems(2)
  show ?case
  proof (cases "cur \<le> e")
    case True
    note grid = point_grid_rec [OF pos True]
    show ?thesis
    proof (cases "maxLength \<le> enat (length acc)")
      case True
      with fits have "maxLength = enat (length acc)"
        by simp
      then show ?thesis
        using \<open>cur \<le> e\<close> by (subst getAllPoints_loop.simps) (simp add: grid)
    next
      case False
      then have room: "enat (length (acc @ [cur])) \<le> maxLength"
        by (cases maxLength) simp_all
      have "nat (e - (cur + step) + 1) < nat (e - cur + 1)"
        using True pos by linarith
      from less.hyps [OF this pos room]
      have "getAllPoints_loop maxLength (cur + step) e step (acc @ [cur]) =
              (if enat (length (acc @ [cur]) + length (point_grid (cur + step) e step)) \<le> maxLength
               then Some (Inr ((acc @ [cur]) @ point_grid (cur + step) e step))
               else Some (Inl (JsRangeError ''Invalid array length'')))" .
      then show ?thesis
        using True False by (subst getAllPoints_loop.simps) (simp add: grid)
    qed
  next
    case False
    then show ?thesis
      using fits by (subst getAllPoints_loop.simps) (simp add: point_grid_empty pos)
  qed
qed

lemma getAllPoints_loop_overrun:
  "step \<le> 0 \<Longrightarrow> cur \<le> e \<Longrightarrow> length acc \<le> n \<Longrightarrow>
     getAllPoints_loop (enat n) cur e step acc = Some (Inl (JsRangeError ''Invalid array length''))"
proof (induction "n - length acc" arbitrary: cur acc rule: less_induct)
  case less
  show ?case
  proof (cases "n \<le> length acc")
    case True
    then show ?thesis
      using less.prems(2) by (subst getAllPoints_loop.simps) simp
  next
    case False
    then have "n - length (acc @ [cur]) < n - length acc" "length (acc @ [cur]) \<le> n"
      by simp_all
    moreover have "cur + step \<le> e"
      using less.prems(1,2) by linarith
    ultimately have "getAllPoints_loop (enat n) (cur + step) e step (acc @ [cur]) =
        Some (Inl (JsRangeError ''Invalid array length''))"
      using less.hyps less.prems(1) by blast
    then show ?thesis
      using False less.prems(2) by (subst getAllPoints_loop.simps) simp
  qed
qed

lemma js_rem_aligned: "0 < step \<Longrightarrow> step dvd (a - js_rem a step)"
proof -
  assume s: "0 < step"
  consider "0 \<le> a" | "a < 0"
    by linarith
  then show ?thesis
  proof cases
    case 1
    then show ?thesis
      using s by (simp add: js_rem_def sgn_if dvd_minus_mod)
  next
    case 2
    have "step dvd (- a) - (- a) mod step"
      by (rule dvd_minus_mod)
    then have "step dvd - ((- a) - (- a) mod step)"
      by (simp only: dvd_minus_iff)
    then show ?thesis
      using 2 s by (simp add: js_rem_def sgn_if algebra_simps)
  qed
qed

lemma js_rem_bounds: "0 < step \<Longrightarrow> \<bar>js_rem a step\<bar> < step"
  by (simp add: js_rem_def abs_mult sgn_if)

lemma expandTimeRange_Some:
  "step \<noteq> 0 \<Longrightarrow> \<exists>aS aE. expandTimeRange s e step = Some (aS, aE)"
  by (simp add: expandTimeRange_def Let_def)

lemma expandTimeRange_aligned:
  assumes "0 < step" "expandTimeRange s e step = Some (aS, aE)"
  shows "step dvd aS" and "step dvd aE"
proof -
  from assms show "step dvd aS"
    by (auto simp: expandTimeRange_def Let_def js_rem_aligned)
  have "step dvd (e - js_rem e step) + step"
    using assms(1) by (simp add: js_rem_aligned)
  moreover have "step dvd e" if "js_rem e step = 0"
    using js_rem_aligned [OF assms(1), of e] that by simp
  ultimately show "step dvd aE"
    using assms by (auto simp: expandTimeRange_def Let_def algebra_simps split: if_splits)
qed

lemma expandTimeRange_bounds:
  assumes "0 < step" "expandTimeRange s e step = Some (aS, aE)"
  shows "aS < s + step" and "e \<le> aE"
  using assms js_rem_bounds [OF assms(1), of s] js_rem_bounds [OF assms(1), of e]
  by (auto simp: expandTimeRange_def Let_def split: if_splits)

lemma expandTimeRange_ordered:
  assumes "0 < step" "s \<le> e" "expandTimeRange s e step = Some (aS, aE)"
  shows "aS \<le> aE"
proof (rule ccontr)
  assume "\<not> aS \<le> aE"
  then have pos: "0 < aS - aE"
    by simp
  have "step dvd aS - aE"
    using expandTimeRange_aligned [OF assms(1,3)] by (rule dvd_diff)
  then have "step \<le> aS - aE"
    using pos by (rule zdvd_imp_le)
  then show False
    using expandTimeRange_bounds [OF assms(1,3)] assms(2) by linarith
qed


lemma point_grid_ends:
  assumes "0 < step" "a \<le> b" "step dvd b - a"
  shows "hd (point_grid a b step) = a" and "last (point_grid a b step) = b"
proof -
  show "hd (point_grid a b step) = a"
    by (simp add: point_grid_rec [OF assms(1,2)])
  define m where "m = nat ((b - a) div step)"
  have nn: "0 \<le> (b - a) div step"
    using assms(1,2) by (simp add: pos_imp_zdiv_nonneg_iff)
  then have "nat ((b - a) div step + 1) = Suc m"
    by (simp add: m_def nat_add_distrib)
  then have "point_grid a b step = map (\<lambda>k. a + int k * step) ([0..<m] @ [m])"
    by (simp add: point_grid_def)
  then have "last (point_grid a b step) = a + int m * step"
    by simp
  also have "int m * step = b - a"
    using nn assms(3) by (simp add: m_def)
  finally show "last (point_grid a b step) = b"
    by simp
qed

lemma point_grid_progression:
  "0 < step \<Longrightarrow> successively (\<lambda>x y. y = x + step) (point_grid a b step)"
proof (induction "nat (b - a + 1)" arbitrary: a rule: less_induct)
  case less
  show ?case
  proof (cases "a \<le> b")
    case True
    have "nat (b - (a + step) + 1) < nat (b - a + 1)"
      using True less.prems by linarith
    from less.hyps [OF this less.prems]
    have tl_ok: "successively (\<lambda>x y. y = x + step) (point_grid (a + step) b step)" .
    have "point_grid (a + step) b step = [] \<or> hd (point_grid (a + step) b step) = a + step"
    proof (cases "a + step \<le> b")
      case True
      then show ?thesis
        by (simp add: point_grid_rec [OF less.prems True])
    next
      case False
      then show ?thesis
        by (simp add: point_grid_empty less.prems)
    qed
    with tl_ok show ?thesis
      by (auto simp: point_grid_rec [OF less.prems True] successively_Cons)
  next
    case False
    then show ?thesis
      by (simp add: point_grid_empty less.prems)
  qed
qed

lemma point_grid_aligned:
  "step dvd a \<Longrightarrow> x \<in> set (point_grid a b step) \<Longrightarrow> step dvd x"
  by (auto simp: point_grid_def)

lemma progression_is_grid:
  assumes "0 < step"
  shows "c \<noteq> [] \<Longrightarrow> successively (\<lambda>x y. y = x + step) c \<Longrightarrow>
           hd c \<le> last c \<and> point_grid (hd c) (last c) step = c"
proof (induction c)
  case Nil
  then show ?case by simp
next
  case (Cons x c)
  show ?case
  proof (cases "c = []")
    case True
    then show ?thesis
      using assms by (simp add: point_grid_rec point_grid_empty)
  next
    case False
    with Cons.prems have h: "hd c = x + step" and s: "successively (\<lambda>x y. y = x + step) c"
      by (auto simp: successively_Cons)
    from Cons.IH [OF False s] have le: "hd c \<le> last c" and g: "point_grid (hd c) (last c) step = c"
      by simp_all
    have "x \<le> last c"
      using le h assms by linarith
    then have "point_grid x (last c) step = x # point_grid (x + step) (last c) step"
      by (rule point_grid_rec [OF assms])
    then show ?thesis
      using False g h \<open>x \<le> last c\<close> by simp
  qed
qed

lemma successively_concat:
  "\<forall>d \<in> set ds. d \<noteq> [] \<Longrightarrow> successively P (concat ds) \<Longrightarrow>
     (\<forall>d \<in> set ds. successively P d) \<and> successively (\<lambda>d d'. P (last d) (hd d')) ds"
proof (induction ds)
  case Nil
  then show ?case by simp
next
  case (Cons d ds)
  from Cons.prems have d: "d \<noteq> []" and ne: "\<forall>d \<in> set ds. d \<noteq> []"
    by simp_all
  from Cons.prems(2) have sd: "successively P d" and sc: "successively P (concat ds)"
    and link: "concat ds \<noteq> [] \<longrightarrow> P (last d) (hd (concat ds))"
    using d by (auto simp: successively_append_iff)
  from Cons.IH [OF ne sc] have ih: "\<forall>d \<in> set ds. successively P d"
    "successively (\<lambda>d d'. P (last d) (hd d')) ds"
    by simp_all
  have "ds = [] \<or> P (last d) (hd (hd ds))"
  proof (cases ds)
    case Nil
    then show ?thesis by simp
  next
    case (Cons d' ds')
    with ne have "d' \<noteq> []" by simp
    with Cons link show ?thesis by simp
  qed
  with sd ih show ?case
    by (auto simp: successively_Cons)
qed

lemma chunk_loop_Nil: "chunk_loop n [] = []"
  by (subst chunk_loop.simps) simp

lemma chunk_loop_step:
  "0 < n \<Longrightarrow> xs \<noteq> [] \<Longrightarrow> chunk_loop n xs = take n xs # chunk_loop n (drop n xs)"
  by (subst chunk_loop.simps) simp

lemma chunk_loop_concat: "0 < n \<Longrightarrow> concat (chunk_loop n xs) = xs"
proof (induction n xs rule: chunk_loop.induct)
  case (1 n array)
  then show ?case
    by (cases "array = []") (simp_all add: chunk_loop_Nil chunk_loop_step)
qed

lemma chunk_loop_sizes:
  "0 < n \<Longrightarrow> c \<in> set (chunk_loop n xs) \<Longrightarrow> c \<noteq> [] \<and> length c \<le> n"
proof (induction n xs rule: chunk_loop.induct)
  case (1 n array)
  show ?case
  proof (cases "array = []")
    case True
    with "1.prems" show ?thesis by (simp add: chunk_loop_Nil)
  next
    case False
    with "1.prems" have "c = take n array \<or> c \<in> set (chunk_loop n (drop n array))"
      by (simp add: chunk_loop_step)
    then show ?thesis
      using "1.IH" "1.prems"(1) False by auto
  qed
qed

lemma chunk_loop_full:
  "0 < n \<Longrightarrow> c \<in> set (butlast (chunk_loop n xs)) \<Longrightarrow> length c = n"
proof (induction n xs arbitrary: c rule: chunk_loop.induct)
  case (1 n array)
  show ?case
  proof (cases "array = []")
    case True
    with "1.prems" show ?thesis by (simp add: chunk_loop_Nil)
  next
    case False
    note ne = this
    show ?thesis
    proof (cases "drop n array = []")
      case True
      with "1.prems" ne show ?thesis by (simp add: chunk_loop_step chunk_loop_Nil)
    next
      case False
      then have "n < length array" by simp
      then have "length (take n array) = n" by simp
      moreover have "c = take n array \<or> c \<in> set (butlast (chunk_loop n (drop n array)))"
        using "1.prems" ne by (auto simp: chunk_loop_step split: if_splits)
      ultimately show ?thesis
        using "1.IH" "1.prems"(1) ne by auto
    qed
  qed
qed



lemma chunk_enat: "0 < k \<Longrightarrow> chunk xs (enat k) = chunk_loop k xs"
  by (cases "xs = []") (simp_all add: chunk_def chunk_loop_Nil one_enat_def)

lemma map_filter_range_of_chunk:
  "\<forall>c \<in> set cs. c \<noteq> [] \<Longrightarrow>
     List.map_filter range_of_chunk cs = map (\<lambda>c. (last c, hd c)) cs"
  by (induction cs) (simp_all add: range_of_chunk_def)

lemma getRanges_chunks:
  assumes "0 < step" "1 \<le> ideal"
  obtains ds aS aE where
    "expandTimeRange s e step = Some (aS, aE)"
    "getAllPoints \<infinity> s e step = Some (Inr (point_grid aS aE step))"
    "getRanges s e step ideal = Some (Inr (map (\<lambda>d. (hd d, last d)) ds))"
    "concat ds = point_grid aS aE step"
    "\<forall>d \<in> set ds. d \<noteq> [] \<and> length d \<le> nat (max (js_trunc_div ideal step) 1)"
    "\<forall>d \<in> set (tl ds). length d = nat (max (js_trunc_div ideal step) 1)"
proof -
  define k where "k = nat (max (js_trunc_div ideal step) 1)"
  have kpos: "0 < k"
    by (simp add: k_def)
  from assms(1) obtain aS aE where ex: "expandTimeRange s e step = Some (aS, aE)"
    using expandTimeRange_Some [of step s e] by auto
  have gp: "getAllPoints \<infinity> s e step = Some (Inr (point_grid aS aE step))"
    using assms(1) by (simp add: getAllPoints_def ex getAllPoints_loop_grid)
  define cs where "cs = chunk_loop k (rev (point_grid aS aE step))"
  define ds where "ds = map rev (rev cs)"
  have cs_sizes: "\<forall>c \<in> set cs. c \<noteq> [] \<and> length c \<le> k"
    unfolding cs_def using chunk_loop_sizes [OF kpos] by blast
  then have cs_ne: "\<forall>c \<in> set cs. c \<noteq> []"
    by blast
  have "getRanges s e step ideal = Some (Inr (rev (map (\<lambda>c. (last c, hd c)) cs)))"
    using assms kpos cs_ne
    by (simp add: getRanges_def getRanges_limited_def gp chunk_enat map_filter_range_of_chunk
        k_def [symmetric] cs_def [symmetric])
  moreover have "rev (map (\<lambda>c. (last c, hd c)) cs) = map (\<lambda>d. (hd d, last d)) ds"
    by (simp add: ds_def rev_map hd_rev last_rev comp_def)
  ultimately have gr: "getRanges s e step ideal = Some (Inr (map (\<lambda>d. (hd d, last d)) ds))"
    by simp
  have "concat ds = rev (concat cs)"
    by (simp add: ds_def rev_concat)
  then have cc: "concat ds = point_grid aS aE step"
    by (simp add: cs_def chunk_loop_concat [OF kpos])
  have sizes: "\<forall>d \<in> set ds. d \<noteq> [] \<and> length d \<le> k"
    using cs_sizes by (auto simp: ds_def)
  have "tl (rev cs) = rev (butlast cs)"
    by (metis butlast_rev rev_rev_ident)
  then have "map rev (tl (rev cs)) = map rev (rev (butlast cs))"
    by (rule arg_cong)
  then have "tl ds = map rev (rev (butlast cs))"
    unfolding ds_def by (simp only: map_tl)
  then have full: "\<forall>d \<in> set (tl ds). length d = k"
    using chunk_loop_full [OF kpos] by (auto simp: cs_def)
  from ex gp gr cc sizes full show thesis
    unfolding k_def by (rule that)
qed

lemma chunks_are_grids:
  assumes "0 < step" "concat ds = point_grid aS aE step" "\<forall>d \<in> set ds. d \<noteq> []"
  shows "\<forall>d \<in> set ds. hd d \<le> last d \<and> point_grid (hd d) (last d) step = d"
    and "successively (\<lambda>d d'. hd d' = last d + step) ds"
proof -
  have "successively (\<lambda>x y. y = x + step) (concat ds)"
    using assms(1,2) by (simp add: point_grid_progression)
  from successively_concat [OF assms(3) this]
  have each: "\<forall>d \<in> set ds. successively (\<lambda>x y. y = x + step) d"
    and link: "successively (\<lambda>d d'. hd d' = last d + step) ds"
    by simp_all
  from each assms(1,3) show "\<forall>d \<in> set ds. hd d \<le> last d \<and> point_grid (hd d) (last d) step = d"
    using progression_is_grid by blast
  from link show "successively (\<lambda>d d'. hd d' = last d + step) ds" .
qed

lemma linked_ranges_disjoint:
  fixes rs :: "(int \<times> int) list"
  assumes "0 < step" "\<forall>r \<in> set rs. fst r \<le> snd r"
    "successively (\<lambda>r r'. fst r' = snd r + step) rs"
  shows "sorted_wrt (\<lambda>r r'. snd r < fst r') rs"
proof -
  let ?Q = "\<lambda>r r'. fst r \<le> snd r \<and> snd r < fst r' \<and> fst r' \<le> (snd r' :: int)"
  have "successively ?Q rs"
    using assms(3) by (rule successively_mono) (use assms(1,2) in auto)
  moreover have "transp ?Q"
    by (auto simp: transp_def)
  ultimately have "sorted_wrt ?Q rs"
    by (simp add: successively_conv_sorted_wrt)
  then show ?thesis
    by (rule sorted_wrt_mono_rel [rotated]) auto
qed

lemma point_grid_set:
  assumes "0 < step"
  shows "set (point_grid a b step) = {x. a \<le> x \<and> x \<le> b \<and> step dvd x - a}"
proof (intro set_eqI iffI)
  fix x assume "x \<in> set (point_grid a b step)"
  then have "\<exists>k. x = a + int k * step \<and> k < nat ((b - a) div step + 1)"
    by (auto simp: point_grid_def)
  then obtain k where k: "x = a + int k * step" "k < nat ((b - a) div step + 1)"
    by blast
  from k(2) have "int k \<le> (b - a) div step"
    by linarith
  then have "int k * step \<le> (b - a) div step * step"
    using assms by (simp add: mult_right_mono)
  also have "\<dots> \<le> b - a"
    using assms by (metis mult.commute pos_mod_sign add_le_cancel_left
        mult_div_mod_eq add.right_neutral)
  finally have "x \<le> b"
    using k(1) by simp
  moreover have "a \<le> x"
    using k(1) assms by simp
  ultimately show "x \<in> {x. a \<le> x \<and> x \<le> b \<and> step dvd x - a}"
    using k(1) by simp
next
  fix x assume "x \<in> {x. a \<le> x \<and> x \<le> b \<and> step dvd x - a}"
  then have ax: "a \<le> x" and xb: "x \<le> b" and dv: "step dvd x - a"
    by simp_all
  from dv obtain q where q: "x - a = step * q"
    by (auto simp: dvd_def)
  have "0 \<le> step * q"
    using ax q by simp
  then have q0: "0 \<le> q"
    using assms by (simp add: zero_le_mult_iff)
  have "q = (x - a) div step"
    using q assms by simp
  also have "\<dots> \<le> (b - a) div step"
    using xb assms by (simp add: zdiv_mono1)
  finally have "nat q < nat ((b - a) div step + 1)"
    using q0 by linarith
  moreover have "x = a + int (nat q) * step"
    using q q0 by (simp add: algebra_simps)
  ultimately show "x \<in> set (point_grid a b step)"
    unfolding point_grid_def by (auto intro!: image_eqI [where x = "nat q"])
qed

lemma expandTimeRange_outward:
  assumes "0 < step" "0 \<le> s" "s \<le> e" "expandTimeRange s e step = Some (aS, aE)"
  shows "s - step < aS" "aS \<le> s" "e \<le> aE" "aE < e + step"
proof -
  have e0: "0 \<le> e"
    using assms(2,3) by simp
  have rs: "js_rem s step = s mod step" and re: "js_rem e step = e mod step"
    using assms(1,2) e0 by (auto simp: js_rem_def sgn_if)
  have "0 \<le> s mod step" "s mod step < step" "0 \<le> e mod step" "e mod step < step"
    using assms(1) by simp_all
  with assms(1,4) rs re show "s - step < aS" "aS \<le> s" "e \<le> aE" "aE < e + step"
    by (auto simp: expandTimeRange_def Let_def split: if_splits)
qed

lemma multiple_between:
  fixes step :: int
  assumes "0 < step" "step dvd a" "step dvd p" "a - step < p"
  shows "a \<le> p"
proof (rule ccontr)
  assume "\<not> a \<le> p"
  then have "0 < a - p"
    by simp
  moreover have "step dvd a - p"
    using assms(2,3) by (rule dvd_diff)
  ultimately have "step \<le> a - p"
    by (rule zdvd_imp_le [rotated])
  with assms(4) show False
    by simp
qed

lemma aligned_grid_outward:
  assumes "0 < step" "0 \<le> s" "s \<le> e" "expandTimeRange s e step = Some (aS, aE)"
  shows "set (point_grid aS aE step) = {p. step dvd p \<and> s - step < p \<and> p < e + step}"
proof -
  note al = expandTimeRange_aligned [OF assms(1,4)]
  note out = expandTimeRange_outward [OF assms]
  have "(aS \<le> p \<and> p \<le> aE \<and> step dvd p - aS) = (step dvd p \<and> s - step < p \<and> p < e + step)" for p
  proof
    assume l: "aS \<le> p \<and> p \<le> aE \<and> step dvd p - aS"
    then have "step dvd (p - aS) + aS"
      using al(1) by (intro dvd_add) simp_all
    then have "step dvd p"
      by simp
    with l out show "step dvd p \<and> s - step < p \<and> p < e + step"
      by simp
  next
    assume r: "step dvd p \<and> s - step < p \<and> p < e + step"
    then have dp: "step dvd p"
      by simp
    have "aS - step < p"
      using r out(2) by simp
    then have "aS \<le> p"
      by (rule multiple_between [OF assms(1) al(1) dp])
    moreover have "p - step < aE"
      using r out(3) by simp
    then have "p \<le> aE"
      by (rule multiple_between [OF assms(1) dp al(2)])
    moreover have "step dvd p - aS"
      using dp al(1) by (rule dvd_diff)
    ultimately show "aS \<le> p \<and> p \<le> aE \<and> step dvd p - aS"
      by simp
  qed
  then show ?thesis
    by (simp add: point_grid_set [OF assms(1)])
qed


lemma getAllPoints_fits:
  assumes "0 < step" "expandTimeRange s e step = Some (aS, aE)"
  shows "getAllPoints maxLength s e step =
           (if enat (length (point_grid aS aE step)) \<le> maxLength
            then Some (Inr (point_grid aS aE step))
            else Some (Inl (JsRangeError ''Invalid array length'')))"
  using assms by (simp add: getAllPoints_def getAllPoints_loop_grid zero_enat_def [symmetric])

lemma getRanges_limited_fits:
  assumes "0 < step" "expandTimeRange s e step = Some (aS, aE)"
    "enat (length (point_grid aS aE step)) \<le> maxLength"
  shows "getRanges_limited maxLength s e step ideal = getRanges s e step ideal"
  using assms(3)
  by (simp add: getRanges_def getRanges_limited_def getAllPoints_fits [OF assms(1,2)])

lemma getRanges_limited_overflow:
  assumes "0 < step" "1 \<le> ideal" "expandTimeRange s e step = Some (aS, aE)"
    "\<not> enat (length (point_grid aS aE step)) \<le> maxLength"
  shows "getRanges_limited maxLength s e step ideal =
           Some (Inl (JsRangeError ''Invalid array length''))"
  using assms(2,4)
  by (simp add: getRanges_limited_def getAllPoints_fits [OF assms(1,3)])

lemma getRanges_limited_overrun:
  assumes "step < 0" "1 \<le> ideal" "expandTimeRange s e step = Some (aS, aE)" "aS \<le> aE"
  shows "getRanges_limited (enat n) s e step ideal =
           Some (Inl (JsRangeError ''Invalid array length''))"
proof -
  have "getAllPoints_loop (enat n) aS aE step [] =
          Some (Inl (JsRangeError ''Invalid array length''))"
    using assms(1,4) by (intro getAllPoints_loop_overrun) simp_all
  then show ?thesis
    using assms(1,2,3) by (simp add: getRanges_limited_def getAllPoints_def)
qed

lemma getRanges_limited_returns:
  assumes "getRanges_limited maxLength s e step ideal = Some (Inr rs)"
  shows "getRanges s e step ideal = Some (Inr rs)"
proof (cases maxLength)
  case infinity
  with assms show ?thesis
    by (simp add: getRanges_def)
next
  case (enat n)
  from assms have ideal: "1 \<le> ideal"
    by (auto simp: getRanges_limited_def split: if_splits)
  show ?thesis
  proof (cases "step = 0")
    case True
    with assms ideal show ?thesis
      by (simp add: getRanges_def getRanges_limited_def getAllPoints_def expandTimeRange_def)
  next
    case False
    then obtain aS aE where ex: "expandTimeRange s e step = Some (aS, aE)"
      using expandTimeRange_Some [of step s e] by auto
    show ?thesis
    proof (cases "0 < step")
      case True
      show ?thesis
      proof (cases "enat (length (point_grid aS aE step)) \<le> maxLength")
        case True
        with assms show ?thesis
          by (simp add: getRanges_limited_fits [OF \<open>0 < step\<close> ex])
      next
        case False
        with assms show ?thesis
          by (simp add: getRanges_limited_overflow [OF \<open>0 < step\<close> ideal ex])
      qed
    next
      case neg: False
      with \<open>step \<noteq> 0\<close> have neg: "step < 0"
        by simp
      show ?thesis
      proof (cases "aS \<le> aE")
        case True
        with assms show ?thesis
          by (simp add: enat getRanges_limited_overrun [OF neg ideal ex])
      next
        case False
        then have "getAllPoints_loop m aS aE step [] = Some (Inr [])" for m
          by (subst getAllPoints_loop.simps) simp
        with assms ideal show ?thesis
          by (simp add: getRanges_def getRanges_limited_def getAllPoints_def ex)
      qed
    qed
  qed
qed

lemma getAllPoints_loop_error:
  assumes "getAllPoints_loop maxLength c e step acc = Some r"
  shows "\<forall>err. r = Inl err \<longrightarrow> err = JsRangeError ''Invalid array length''"
proof (rule getAllPoints_loop.raw_induct [OF _ assms])
  fix loop :: "enat \<Rightarrow> int \<Rightarrow> int \<Rightarrow> int \<Rightarrow> int list \<Rightarrow> (js_error + int list) option"
    and maxLength current alignedEnd step result y
  assume ih: "\<And>maxLength current alignedEnd step result y.
      loop maxLength current alignedEnd step result = Some y \<Longrightarrow>
      \<forall>err. y = Inl err \<longrightarrow> err = JsRangeError ''Invalid array length''"
    and body: "(if current \<le> alignedEnd
      then if maxLength \<le> enat (length result)
           then Some (Inl (JsRangeError ''Invalid array length''))
           else loop maxLength (current + step) alignedEnd step (result @ [current])
      else Some (Inr result)) = Some y"
  show "\<forall>err. y = Inl err \<longrightarrow> err = JsRangeError ''Invalid array length''"
  proof (cases "current \<le> alignedEnd")
    case True
    show ?thesis
    proof (cases "maxLength \<le> enat (length result)")
      case True
      with \<open>current \<le> alignedEnd\<close> body show ?thesis
        by auto
    next
      case False
      with \<open>current \<le> alignedEnd\<close> body
      have "loop maxLength (current + step) alignedEnd step (result @ [current]) = Some y"
        by simp
      then show ?thesis
        by (rule ih)
    qed
  next
    case False
    with body show ?thesis
      by auto
  qed
qed

section \<open>The partitioner: claims\<close>

text \<open>
  Claim C1 (coverage). The aligned point grid of \<open>[startTime, endTime]\<close> at \<open>step\<close> is
  the set of the multiples of \<open>step\<close> from the last one at or before \<open>startTime\<close> to the
  first one at or after \<open>endTime\<close>, that is, the multiples \<open>p\<close> with
  \<open>startTime - step < p < endTime + step\<close>. For a start at or after the epoch the point
  sets of the ranges returned unite to exactly this grid. For a start before the epoch
  they do not: the remainder of a negative timestamp is negative, so the start is moved
  forward and the end is moved forward by a whole step too much. For the range
  \<open>[-63, -3]\<close> at step 10 the ranges cover \<open>-60, \<dots>, 10\<close>: the grid point \<open>-70\<close> is
  missing and the point \<open>10\<close> lies outside the grid \<open>-70, \<dots>, 0\<close>.
\<close>

theorem getRanges_grid_before_epoch:
  "getRanges (- 63) (- 3) 10 35 = Some (Inr [(- 60, - 50), (- 40, - 20), (- 10, 10)]) \<and>
   - 70 \<notin> (\<Union>r \<in> set [(- 60, - 50), (- 40, - 20), (- 10, 10 :: int)].
              set (point_grid (fst r) (snd r) 10)) \<and>
   10 \<in> (\<Union>r \<in> set [(- 60, - 50), (- 40, - 20), (- 10, 10 :: int)].
              set (point_grid (fst r) (snd r) 10)) \<and>
   - 70 \<in> {p. (10 :: int) dvd p \<and> - 63 - 10 < p \<and> p < - 3 + 10} \<and>
   10 \<notin> {p. (10 :: int) dvd p \<and> - 63 - 10 < p \<and> p < - 3 + 10} \<and>
   (1 \<le> step \<and> 1 \<le> idealRangeSize \<and> 0 \<le> startTime \<and> startTime \<le> endTime \<longrightarrow>
     (\<exists>rs. getRanges startTime endTime step idealRangeSize = Some (Inr rs) \<and>
        (\<Union>r \<in> set rs. set (point_grid (fst r) (snd r) step))
          = {p. step dvd p \<and> startTime - step < p \<and> p < endTime + step}))"
proof (intro conjI impI)
  show "getRanges (- 63) (- 3) 10 35 = Some (Inr [(- 60, - 50), (- 40, - 20), (- 10, 10)])"
    by code_simp
  show "- 70 \<notin> (\<Union>r \<in> set [(- 60, - 50), (- 40, - 20), (- 10, 10 :: int)].
              set (point_grid (fst r) (snd r) 10))"
    by (simp add: point_grid_set)
  show "10 \<in> (\<Union>r \<in> set [(- 60, - 50), (- 40, - 20), (- 10, 10 :: int)].
              set (point_grid (fst r) (snd r) 10))"
    by (simp add: point_grid_set)
  show "- 70 \<in> {p. (10 :: int) dvd p \<and> - 63 - 10 < p \<and> p < - 3 + 10}"
    by simp
  show "10 \<notin> {p. (10 :: int) dvd p \<and> - 63 - 10 < p \<and> p < - 3 + 10}"
    by simp
next
  assume a: "1 \<le> step \<and> 1 \<le> idealRangeSize \<and> 0 \<le> startTime \<and> startTime \<le> endTime"
  then have pos: "0 < step" and ideal: "1 \<le> idealRangeSize"
    and nn: "0 \<le> startTime" and le: "startTime \<le> endTime"
    by simp_all
  obtain ds aS aE where
    ex: "expandTimeRange startTime endTime step = Some (aS, aE)" and
    gp: "getAllPoints \<infinity> startTime endTime step = Some (Inr (point_grid aS aE step))" and
    gr: "getRanges startTime endTime step idealRangeSize = Some (Inr (map (\<lambda>d. (hd d, last d)) ds))" and
    cc: "concat ds = point_grid aS aE step" and
    sz: "\<forall>d \<in> set ds. d \<noteq> [] \<and> length d \<le> nat (max (js_trunc_div idealRangeSize step) 1)" and
    full: "\<forall>d \<in> set (tl ds). length d = nat (max (js_trunc_div idealRangeSize step) 1)"
    by (rule getRanges_chunks [OF pos ideal])
  from sz have ne: "\<forall>d \<in> set ds. d \<noteq> []"
    by blast
  have "(\<Union>r \<in> set (map (\<lambda>d. (hd d, last d)) ds). set (point_grid (fst r) (snd r) step))
          = (\<Union>d \<in> set ds. set (point_grid (hd d) (last d) step))"
    by simp
  also have "\<dots> = (\<Union>d \<in> set ds. set d)"
    using chunks_are_grids(1) [OF pos cc ne] by simp
  also have "\<dots> = set (concat ds)"
    by simp
  also have "\<dots> = {p. step dvd p \<and> startTime - step < p \<and> p < endTime + step}"
    unfolding cc by (rule aligned_grid_outward [OF pos nn le ex])
  finally show "\<exists>rs. getRanges startTime endTime step idealRangeSize = Some (Inr rs) \<and>
        (\<Union>r \<in> set rs. set (point_grid (fst r) (snd r) step))
          = {p. step dvd p \<and> startTime - step < p \<and> p < endTime + step}"
    using gr by blast
qed

theorem getRanges_grid_before_epoch_witness:
  "\<exists>rs. getRanges 3 63 10 35 = Some (Inr rs) \<and>
     (\<Union>r \<in> set rs. set (point_grid (fst r) (snd r) 10))
       = {p. (10 :: int) dvd p \<and> 3 - 10 < p \<and> p < 63 + 10}"
  using getRanges_grid_before_epoch [of 10 35 3 63] by simp


text \<open>
  Claim C2 (alignment). For every \<open>step \<ge> 1\<close> and \<open>startTime \<le> endTime\<close> (and a chunk
  size the function accepts), every start bound and every end bound of every range that
  \<^verbatim>\<open>getRanges\<close> returns is an integer multiple of \<open>step\<close>.
\<close>

theorem getRanges_bounds_aligned:
  assumes "1 \<le> step" "1 \<le> idealRangeSize" "startTime \<le> endTime"
  shows "\<exists>rs. getRanges startTime endTime step idealRangeSize = Some (Inr rs) \<and> rs \<noteq> [] \<and>
           (\<forall>r \<in> set rs. fst r mod step = 0 \<and> snd r mod step = 0)"
proof -
  from assms(1) have pos: "0 < step"
    by simp
  obtain ds aS aE where
    ex: "expandTimeRange startTime endTime step = Some (aS, aE)" and
    gp: "getAllPoints \<infinity> startTime endTime step = Some (Inr (point_grid aS aE step))" and
    gr: "getRanges startTime endTime step idealRangeSize = Some (Inr (map (\<lambda>d. (hd d, last d)) ds))" and
    cc: "concat ds = point_grid aS aE step" and
    sz: "\<forall>d \<in> set ds. d \<noteq> [] \<and> length d \<le> nat (max (js_trunc_div idealRangeSize step) 1)" and
    full: "\<forall>d \<in> set (tl ds). length d = nat (max (js_trunc_div idealRangeSize step) 1)"
    by (rule getRanges_chunks [OF pos assms(2)])
  have "aS \<le> aE"
    using pos assms(3) ex by (rule expandTimeRange_ordered)
  then have "point_grid aS aE step \<noteq> []"
    by (simp add: point_grid_rec [OF pos])
  with cc have "ds \<noteq> []"
    by auto
  moreover have "step dvd hd d \<and> step dvd last d" if "d \<in> set ds" for d
  proof -
    from that sz have "d \<noteq> []"
      by blast
    then have "hd d \<in> set d" "last d \<in> set d"
      by simp_all
    with that have "hd d \<in> set (concat ds)" "last d \<in> set (concat ds)"
      by auto
    then show ?thesis
      unfolding cc using point_grid_aligned expandTimeRange_aligned(1) [OF pos ex] by blast
  qed
  ultimately show ?thesis
    using gr by (auto simp: mod_eq_0_iff_dvd)
qed

theorem getRanges_bounds_aligned_witness:
  "(1::int) \<le> 10 \<and> (1::int) \<le> 35 \<and> (3::int) \<le> 63 \<and>
   (\<exists>rs. getRanges 3 63 10 35 = Some (Inr rs) \<and> rs \<noteq> [] \<and>
      (\<forall>r \<in> set rs. fst r mod 10 = 0 \<and> snd r mod 10 = 0))"
  using getRanges_bounds_aligned [of 10 35 3 63] by simp

text \<open>
  Claim C10 (order, no shared boundary). For every \<open>step \<ge> 1\<close>, \<open>idealRangeSize \<ge> 1\<close>
  and \<open>startTime \<le> endTime\<close>, \<^verbatim>\<open>getRanges\<close> returns a non-empty list of ranges, each
  with its start at or before its end, in which the start of every range is the end of
  the range before it plus exactly one step; so every range lies strictly before all
  later ones and no timestamp belongs to two ranges.
\<close>

theorem getRanges_consecutive:
  assumes "1 \<le> step" "1 \<le> idealRangeSize" "startTime \<le> endTime"
  shows "\<exists>rs. getRanges startTime endTime step idealRangeSize = Some (Inr rs) \<and> rs \<noteq> [] \<and>
           (\<forall>r \<in> set rs. fst r \<le> snd r) \<and>
           successively (\<lambda>r r'. fst r' = snd r + step) rs \<and>
           sorted_wrt (\<lambda>r r'. snd r < fst r') rs"
proof -
  from assms(1) have pos: "0 < step"
    by simp
  obtain ds aS aE where
    ex: "expandTimeRange startTime endTime step = Some (aS, aE)" and
    gp: "getAllPoints \<infinity> startTime endTime step = Some (Inr (point_grid aS aE step))" and
    gr: "getRanges startTime endTime step idealRangeSize = Some (Inr (map (\<lambda>d. (hd d, last d)) ds))" and
    cc: "concat ds = point_grid aS aE step" and
    sz: "\<forall>d \<in> set ds. d \<noteq> [] \<and> length d \<le> nat (max (js_trunc_div idealRangeSize step) 1)" and
    full: "\<forall>d \<in> set (tl ds). length d = nat (max (js_trunc_div idealRangeSize step) 1)"
    by (rule getRanges_chunks [OF pos assms(2)])
  define rs where "rs = map (\<lambda>d. (hd d, last d)) ds"
  from sz have ne: "\<forall>d \<in> set ds. d \<noteq> []"
    by blast
  have "aS \<le> aE"
    using pos assms(3) ex by (rule expandTimeRange_ordered)
  then have "point_grid aS aE step \<noteq> []"
    by (simp add: point_grid_rec [OF pos])
  with cc have "ds \<noteq> []"
    by auto
  then have nonempty: "rs \<noteq> []"
    by (simp add: rs_def)
  have ordered: "\<forall>r \<in> set rs. fst r \<le> snd r"
    using chunks_are_grids(1) [OF pos cc ne] by (auto simp: rs_def)
  have linked: "successively (\<lambda>r r'. fst r' = snd r + step) rs"
    using chunks_are_grids(2) [OF pos cc ne] by (simp add: rs_def successively_map)
  have "sorted_wrt (\<lambda>r r'. snd r < fst r') rs"
    using pos ordered linked by (rule linked_ranges_disjoint)
  with nonempty ordered linked gr show ?thesis
    unfolding rs_def by blast
qed

theorem getRanges_consecutive_witness:
  "(1::int) \<le> 10 \<and> (1::int) \<le> 35 \<and> (3::int) \<le> 63 \<and>
   (\<exists>rs. getRanges 3 63 10 35 = Some (Inr rs) \<and> rs \<noteq> [] \<and>
      (\<forall>r \<in> set rs. fst r \<le> snd r) \<and>
      successively (\<lambda>r r'. fst r' = snd r + 10) rs \<and>
      sorted_wrt (\<lambda>r r'. snd r < fst r') rs)"
  using getRanges_consecutive [of 10 35 3 63] by simp




text \<open>
  Claim C8 (argument errors), as stated, says that the split fails for every input with
  \<open>start > end\<close> and for every input with \<open>step < 1\<close>. With the start 5 after the
  end 3, and with the step 0, the partitioner returns the empty list of ranges.
\<close>

theorem getRanges_unchecked_counterexample:
  "getRanges_limited (enat 4294967295) 5 3 1 1 = Some (Inr []) \<and>
   getRanges_limited (enat 4294967295) 3 63 0 35 = Some (Inr [])"
  by (simp add: getRanges_limited_def getAllPoints_def expandTimeRange_def js_rem_def
      getAllPoints_loop.simps chunk_def)

text \<open>
  Claim C8, amended. The partitioner throws its argument error, \<open>idealRangeSize must be at
  least 1\<close>, exactly when \<open>idealRangeSize < 1\<close>, and it throws no other error of this
  kind: the step and the order of the bounds are not validated. For
  \<open>idealRangeSize \<ge> 1\<close> and \<open>step \<ge> 1\<close> it returns normally, also when
  \<open>start > end\<close>, provided the aligned grid fits into an array, and fails with the
  range error of an array that has reached its maximal length when the grid does not fit;
  with a negative step and aligned bounds in order the loop that collects the points
  never ends by itself and the run fails with the same range error.
\<close>

theorem getRanges_argument_error:
  "(getRanges_limited maxLength startTime endTime step idealRangeSize
      = Some (Inl (JsError ''idealRangeSize must be at least 1''))) = (idealRangeSize < 1) \<and>
   (getRanges_limited maxLength startTime endTime step idealRangeSize = Some (Inl (JsError msg))
      \<longrightarrow> idealRangeSize < 1) \<and>
   (1 \<le> idealRangeSize \<and> 1 \<le> step \<and>
    expandTimeRange startTime endTime step = Some (aS, aE) \<and>
    enat (length (point_grid aS aE step)) \<le> maxLength \<longrightarrow>
      (\<exists>rs. getRanges_limited maxLength startTime endTime step idealRangeSize = Some (Inr rs))) \<and>
   (1 \<le> idealRangeSize \<and> step < 0 \<and>
    expandTimeRange startTime endTime step = Some (aS, aE) \<and> aS \<le> aE \<and> maxLength \<noteq> \<infinity> \<longrightarrow>
      getRanges_limited maxLength startTime endTime step idealRangeSize
        = Some (Inl (JsRangeError ''Invalid array length''))) \<and>
   (1 \<le> idealRangeSize \<and> 1 \<le> step \<and>
    expandTimeRange startTime endTime step = Some (aS, aE) \<and>
    \<not> enat (length (point_grid aS aE step)) \<le> maxLength \<longrightarrow>
      getRanges_limited maxLength startTime endTime step idealRangeSize
        = Some (Inl (JsRangeError ''Invalid array length'')))"
proof -
  have other: "getRanges_limited maxLength startTime endTime step idealRangeSize
      \<noteq> Some (Inl (JsError m))" if "1 \<le> idealRangeSize" for m
  proof
    assume thrown: "getRanges_limited maxLength startTime endTime step idealRangeSize
      = Some (Inl (JsError m))"
    then have "getAllPoints maxLength startTime endTime step = Some (Inl (JsError m))"
      using that by (simp add: getRanges_limited_def Let_def split: option.splits sum.splits)
    then obtain bS bE where
      "getAllPoints_loop maxLength bS bE step [] = Some (Inl (JsError m))"
      by (auto simp: getAllPoints_def split: option.splits)
    from getAllPoints_loop_error [OF this] show False
      by simp
  qed
  have first: "(getRanges_limited maxLength startTime endTime step idealRangeSize
      = Some (Inl (JsError ''idealRangeSize must be at least 1''))) = (idealRangeSize < 1)"
  proof (cases "idealRangeSize < 1")
    case True
    then show ?thesis
      by (simp add: getRanges_limited_def)
  next
    case False
    then show ?thesis
      using other [of "''idealRangeSize must be at least 1''"] by simp
  qed
  have second: "getRanges_limited maxLength startTime endTime step idealRangeSize
      = Some (Inl (JsError msg)) \<longrightarrow> idealRangeSize < 1"
  proof (cases "idealRangeSize < 1")
    case True
    then show ?thesis by simp
  next
    case False
    then have "1 \<le> idealRangeSize"
      by simp
    from other [OF this, of msg] show ?thesis
      by simp
  qed
  have third: "\<exists>rs. getRanges_limited maxLength startTime endTime step idealRangeSize
      = Some (Inr rs)"
    if "1 \<le> idealRangeSize \<and> 1 \<le> step \<and>
      expandTimeRange startTime endTime step = Some (aS, aE) \<and>
      enat (length (point_grid aS aE step)) \<le> maxLength"
  proof -
    from that have pos: "0 < step" and ideal: "1 \<le> idealRangeSize"
      and ex: "expandTimeRange startTime endTime step = Some (aS, aE)"
      and fits: "enat (length (point_grid aS aE step)) \<le> maxLength"
      by simp_all
    show ?thesis
      using ideal by (simp add: getRanges_limited_def getAllPoints_fits [OF pos ex] fits)
  qed
  have fourth: "getRanges_limited maxLength startTime endTime step idealRangeSize
      = Some (Inl (JsRangeError ''Invalid array length''))"
    if "1 \<le> idealRangeSize \<and> step < 0 \<and>
      expandTimeRange startTime endTime step = Some (aS, aE) \<and> aS \<le> aE \<and> maxLength \<noteq> \<infinity>"
  proof -
    from that obtain n where "maxLength = enat n"
      by (cases maxLength) simp_all
    with that show ?thesis
      by (simp add: getRanges_limited_overrun)
  qed
  have fifth: "getRanges_limited maxLength startTime endTime step idealRangeSize
      = Some (Inl (JsRangeError ''Invalid array length''))"
    if "1 \<le> idealRangeSize \<and> 1 \<le> step \<and>
      expandTimeRange startTime endTime step = Some (aS, aE) \<and>
      \<not> enat (length (point_grid aS aE step)) \<le> maxLength"
  proof -
    from that have pos: "0 < step" and ideal: "1 \<le> idealRangeSize"
      and ex: "expandTimeRange startTime endTime step = Some (aS, aE)"
      and over: "\<not> enat (length (point_grid aS aE step)) \<le> maxLength"
      by simp_all
    show ?thesis
      by (rule getRanges_limited_overflow [OF pos ideal ex over])
  qed
  from first second third fourth fifth show ?thesis
    by blast
qed

theorem getRanges_argument_error_witness:
  "getRanges_limited (enat 4294967295) 3 63 10 0
      = Some (Inl (JsError ''idealRangeSize must be at least 1'')) \<and>
   (\<exists>rs. getRanges_limited (enat 4294967295) 5 3 1 1 = Some (Inr rs)) \<and>
   getRanges_limited (enat 4294967295) 3 63 (- 10) 35
      = Some (Inl (JsRangeError ''Invalid array length'')) \<and>
   getRanges_limited (enat 3) 3 63 10 35
      = Some (Inl (JsRangeError ''Invalid array length''))"
proof -
  have a: "(0 :: int) < 1"
    by simp
  have b: "(1 :: int) \<le> 1 \<and> (1 :: int) \<le> 1 \<and> expandTimeRange 5 3 1 = Some (5, 3) \<and>
      enat (length (point_grid 5 3 1)) \<le> enat 4294967295"
    by (simp add: expandTimeRange_def js_rem_def point_grid_def)
  have c: "(1 :: int) \<le> 35 \<and> (- 10 :: int) < 0 \<and> expandTimeRange 3 63 (- 10) = Some (0, 50) \<and>
      (0 :: int) \<le> 50 \<and> enat 4294967295 \<noteq> \<infinity>"
    by (simp add: expandTimeRange_def js_rem_def)
  have d: "(1 :: int) \<le> 35 \<and> (1 :: int) \<le> 10 \<and> expandTimeRange 3 63 10 = Some (0, 70) \<and>
      \<not> enat (length (point_grid 0 70 10)) \<le> enat 3"
    by (simp add: expandTimeRange_def js_rem_def point_grid_def)
  from a b c d show ?thesis
    using getRanges_argument_error [of "enat 4294967295" 3 63 10 0]
      getRanges_argument_error [of "enat 4294967295" 5 3 1 1 _ 5 3]
      getRanges_argument_error [of "enat 4294967295" 3 63 "- 10" 35 _ 0 50]
      getRanges_argument_error [of "enat 3" 3 63 10 35 _ 0 70]
    by simp
qed

section \<open>The scheduler: auxiliary facts\<close>

declare string_of_nat.simps [simp del]

lemma string_of_nat_digit: "n < 10 \<Longrightarrow> string_of_nat n = [digit_char n]"
  by (subst string_of_nat.simps) simp

lemma dispatched_append: "dispatched (xs @ ys) = dispatched xs @ dispatched ys"
  by (induction xs rule: dispatched.induct) simp_all

lemma emitted_append: "emitted (xs @ ys) = emitted xs @ emitted ys"
  by (induction xs rule: emitted.induct) simp_all

lemma terminal_events_append:
  "terminal_events (xs @ ys) = terminal_events xs @ terminal_events ys"
  by (induction xs rule: terminal_events.induct) simp_all

lemma after_failure_append:
  "\<forall>e. UnhandledError e \<notin> set xs \<Longrightarrow> after_failure (xs @ ys) = after_failure ys"
  by (induction xs rule: after_failure.induct) auto

lemma after_unsubscribe_append:
  "Unsubscribed \<notin> set xs \<Longrightarrow> after_unsubscribe (xs @ ys) = after_unsubscribe ys"
  by (induction xs rule: after_unsubscribe.induct) simp_all

lemma subscriber_receives_never: "subscriber_receives None evs = evs"
  by (induction evs rule: dispatched.induct) simp_all

lemma dispatched_receives: "dispatched (subscriber_receives sub evs) = dispatched evs"
  by (induction sub evs rule: subscriber_receives.induct)
    (simp_all split: option.splits nat.splits)

lemma terminal_events_receives:
  "terminal_events (subscriber_receives sub evs) = terminal_events evs"
  by (induction sub evs rule: subscriber_receives.induct)
    (simp_all split: option.splits nat.splits)

lemma after_failure_receives:
  "after_failure evs = [] \<Longrightarrow> after_failure (subscriber_receives sub evs) = []"
  by (induction sub evs rule: subscriber_receives.induct)
    (simp_all split: option.splits nat.splits)

lemma emitted_receives_closed: "emitted (subscriber_receives (Some 0) evs) = []"
  by (induction "Some (0::nat)" evs rule: subscriber_receives.induct) simp_all

lemma after_unsubscribe_receives:
  "Unsubscribed \<notin> set evs \<Longrightarrow>
     emitted (after_unsubscribe (subscriber_receives sub evs)) = []"
  by (induction sub evs rule: subscriber_receives.induct)
    (simp_all add: emitted_receives_closed split: option.splits nat.splits)

lemma deliver_total: "fst (deliver t d h a) @ snd (deliver t d h a) = d # h @ a"
  by (cases t) (simp_all add: deliver_def)

lemma next_request_fail:
  "runQuery (sub_request request ps N) = Inl err \<Longrightarrow>
     next_request delivery runQuery cb limit request ps m N =
       ([RunQuery (sub_request request ps N)], [UnhandledError err])"
  by (subst next_request.simps) (simp add: Let_def)

lemma next_request_done:
  assumes "runQuery (sub_request request ps N) = Inr p" "N \<le> 1 \<or> limit request (cb m p)"
  shows "next_request delivery runQuery cb limit request ps m N =
       deliver (delivery (sub_request request ps N)) (RunQuery (sub_request request ps N))
         [Combined (cb m p), SubscriberNext ((cb m p)\<lparr>state := Some Done\<rparr>)] []"
  using assms(2)
proof
  assume "N \<le> 1"
  with assms(1) show ?thesis
    by (subst next_request.simps) (simp add: Let_def)
next
  assume "limit request (cb m p)"
  with assms(1) show ?thesis
    by (subst next_request.simps) (simp add: Let_def)
qed

lemma next_request_streaming:
  "runQuery (sub_request request ps N) = Inr p \<Longrightarrow> 1 < N \<Longrightarrow> \<not> limit request (cb m p) \<Longrightarrow>
     next_request delivery runQuery cb limit request ps m N =
       deliver (delivery (sub_request request ps N)) (RunQuery (sub_request request ps N))
         (Combined (cb m p) #
            fst (next_request delivery runQuery cb limit request ps
                   (Some ((cb m p)\<lparr>state := Some Streaming\<rparr>)) (N - 1)) @
            [SubscriberNext ((cb m p)\<lparr>state := Some Streaming\<rparr>)])
         (snd (next_request delivery runQuery cb limit request ps
                 (Some ((cb m p)\<lparr>state := Some Streaming\<rparr>)) (N - 1)))"
  by (subst next_request.simps) (simp add: Let_def case_prod_beta)

lemma next_request_cases [case_names failed finished streaming]:
  obtains
    err where "runQuery (sub_request request ps N) = Inl err"
      "next_request delivery runQuery cb limit request ps m N =
         ([RunQuery (sub_request request ps N)], [UnhandledError err])"
  | p where "runQuery (sub_request request ps N) = Inr p" "N \<le> 1 \<or> limit request (cb m p)"
      "next_request delivery runQuery cb limit request ps m N =
         deliver (delivery (sub_request request ps N)) (RunQuery (sub_request request ps N))
           [Combined (cb m p), SubscriberNext ((cb m p)\<lparr>state := Some Done\<rparr>)] []"
  | p where "runQuery (sub_request request ps N) = Inr p" "1 < N" "\<not> limit request (cb m p)"
      "next_request delivery runQuery cb limit request ps m N =
         deliver (delivery (sub_request request ps N)) (RunQuery (sub_request request ps N))
           (Combined (cb m p) #
              fst (next_request delivery runQuery cb limit request ps
                     (Some ((cb m p)\<lparr>state := Some Streaming\<rparr>)) (N - 1)) @
              [SubscriberNext ((cb m p)\<lparr>state := Some Streaming\<rparr>)])
           (snd (next_request delivery runQuery cb limit request ps
                   (Some ((cb m p)\<lparr>state := Some Streaming\<rparr>)) (N - 1)))"
proof (cases "runQuery (sub_request request ps N)")
  case (Inl err)
  show ?thesis
    by (rule that(1) [OF Inl next_request_fail [where runQuery = runQuery, OF Inl]])
next
  case (Inr p)
  show ?thesis
  proof (cases "N \<le> 1 \<or> limit request (cb m p)")
    case True
    show ?thesis
      by (rule that(2) [OF Inr True next_request_done [where runQuery = runQuery
            and limit = limit and cb = cb and m = m, OF Inr True]])
  next
    case False
    then have n1: "1 < N" and n2: "\<not> limit request (cb m p)"
      by auto
    show ?thesis
      by (rule that(3) [OF Inr n1 n2 next_request_streaming [where runQuery = runQuery
            and limit = limit and cb = cb and m = m, OF Inr n1 n2]])
  qed
qed

lemma chain_no_terminal:
  "terminal_events (fst (next_request delivery runQuery cb limit request ps m N)) = [] \<and>
   terminal_events (snd (next_request delivery runQuery cb limit request ps m N)) = []"
proof (induction N arbitrary: m rule: less_induct)
  case (less N)
  show ?case
  proof (cases rule: next_request_cases [where runQuery = runQuery and request = request
        and ps = ps and N = N and limit = limit and cb = cb and m = m and delivery = delivery])
    case (failed err)
    then show ?thesis by simp
  next
    case (finished p)
    then show ?thesis
      by (cases "delivery (sub_request request ps N)") (simp_all add: deliver_def)
  next
    case (streaming p)
    have "N - 1 < N"
      using streaming(2) by simp
    from less.IH [OF this] show ?thesis
      unfolding streaming(4)
      by (cases "delivery (sub_request request ps N)")
        (simp_all add: deliver_def terminal_events_append)
  qed
qed

lemma chain_no_unsubscribe:
  "Unsubscribed \<notin> set (fst (next_request delivery runQuery cb limit request ps m N)) \<and>
   Unsubscribed \<notin> set (snd (next_request delivery runQuery cb limit request ps m N))"
proof (induction N arbitrary: m rule: less_induct)
  case (less N)
  show ?case
  proof (cases rule: next_request_cases [where runQuery = runQuery and request = request
        and ps = ps and N = N and limit = limit and cb = cb and m = m and delivery = delivery])
    case (failed err)
    then show ?thesis by simp
  next
    case (finished p)
    then show ?thesis
      by (cases "delivery (sub_request request ps N)") (simp_all add: deliver_def)
  next
    case (streaming p)
    have "N - 1 < N"
      using streaming(2) by simp
    from less.IH [OF this] show ?thesis
      unfolding streaming(4)
      by (cases "delivery (sub_request request ps N)") (simp_all add: deliver_def)
  qed
qed

lemma chain_failure_last:
  "(\<forall>e. UnhandledError e \<notin> set (fst (next_request delivery runQuery cb limit request ps m N))) \<and>
   after_failure (snd (next_request delivery runQuery cb limit request ps m N)) = []"
proof (induction N arbitrary: m rule: less_induct)
  case (less N)
  show ?case
  proof (cases rule: next_request_cases [where runQuery = runQuery and request = request
        and ps = ps and N = N and limit = limit and cb = cb and m = m and delivery = delivery])
    case (failed err)
    then show ?thesis by simp
  next
    case (finished p)
    then show ?thesis
      by (cases "delivery (sub_request request ps N)") (simp_all add: deliver_def)
  next
    case (streaming p)
    have "N - 1 < N"
      using streaming(2) by simp
    from less.IH [OF this, of "Some ((cb m p)\<lparr>state := Some Streaming\<rparr>)"]
    have now: "\<forall>e. UnhandledError e \<notin> set (fst (next_request delivery runQuery cb limit
        request ps (Some ((cb m p)\<lparr>state := Some Streaming\<rparr>)) (N - 1)))"
      and later: "after_failure (snd (next_request delivery runQuery cb limit
        request ps (Some ((cb m p)\<lparr>state := Some Streaming\<rparr>)) (N - 1))) = []"
      by simp_all
    show ?thesis
      unfolding streaming(4) using now later
      by (cases "delivery (sub_request request ps N)")
        (simp_all add: deliver_def after_failure_append)
  qed
qed

lemma chain_dispatched:
  "length (dispatched (fst (next_request delivery runQuery cb limit request ps m N) @
                       snd (next_request delivery runQuery cb limit request ps m N))) \<le> max 1 N \<and>
   dispatched (fst (next_request delivery runQuery cb limit request ps m N) @
               snd (next_request delivery runQuery cb limit request ps m N)) \<noteq> [] \<and>
   (\<forall>i < length (dispatched (fst (next_request delivery runQuery cb limit request ps m N) @
                             snd (next_request delivery runQuery cb limit request ps m N))).
      dispatched (fst (next_request delivery runQuery cb limit request ps m N) @
                  snd (next_request delivery runQuery cb limit request ps m N)) ! i
        = sub_request request ps (N - i))"
proof (induction N arbitrary: m rule: less_induct)
  case (less N)
  show ?case
  proof (cases rule: next_request_cases [where runQuery = runQuery and request = request
        and ps = ps and N = N and limit = limit and cb = cb and m = m and delivery = delivery])
    case (failed err)
    then show ?thesis by simp
  next
    case (finished p)
    then show ?thesis
      by (simp add: deliver_total)
  next
    case (streaming p)
    define older where "older = dispatched
      (fst (next_request delivery runQuery cb limit request ps
              (Some ((cb m p)\<lparr>state := Some Streaming\<rparr>)) (N - 1)) @
       snd (next_request delivery runQuery cb limit request ps
              (Some ((cb m p)\<lparr>state := Some Streaming\<rparr>)) (N - 1)))"
    have "N - 1 < N"
      using streaming(2) by simp
    from less.IH [OF this, of "Some ((cb m p)\<lparr>state := Some Streaming\<rparr>)"]
    have len: "length older \<le> max 1 (N - 1)"
      and nth: "\<And>j. j < length older \<Longrightarrow> older ! j = sub_request request ps (N - 1 - j)"
      unfolding older_def by blast+
    have eq: "dispatched (fst (next_request delivery runQuery cb limit request ps m N) @
                          snd (next_request delivery runQuery cb limit request ps m N)) =
                sub_request request ps N # older"
      unfolding streaming(4) older_def by (simp add: deliver_total dispatched_append)
    have "length (sub_request request ps N # older) \<le> max 1 N"
      using len streaming(2) by simp
    moreover have "(sub_request request ps N # older) ! i = sub_request request ps (N - i)"
      if "i < length (sub_request request ps N # older)" for i
    proof (cases i)
      case 0
      then show ?thesis by simp
    next
      case (Suc j)
      with that have "j < length older"
        by simp
      from nth [OF this] Suc show ?thesis
        by simp
    qed
    ultimately show ?thesis
      unfolding eq by simp
  qed
qed

lemma response_subscribe_trace:
  "response_subscribe delivery runQuery cb limit request ps sub =
     (if sub = Some 0
      then fst (next_request delivery runQuery cb limit request ps None (length ps)) @
           [Unsubscribed] @
           subscriber_receives (Some 0)
             (snd (next_request delivery runQuery cb limit request ps None (length ps)))
      else subscriber_receives sub
             (fst (next_request delivery runQuery cb limit request ps None (length ps)) @
              snd (next_request delivery runQuery cb limit request ps None (length ps))))"
  by (simp add: response_subscribe_def Let_def case_prod_beta)

lemma response_subscribe_dispatched:
  "dispatched (response_subscribe delivery runQuery cb limit request ps sub) =
     dispatched (fst (next_request delivery runQuery cb limit request ps None (length ps)) @
                 snd (next_request delivery runQuery cb limit request ps None (length ps)))"
  by (simp add: response_subscribe_trace dispatched_append dispatched_receives)


lemmas scenario_eval = response_subscribe_def next_request.simps sub_request_def
  deliver_def Let_def string_of_nat_digit digit_char_def
  example_request_def example_partitions_def example_five_partitions_def
  example_runQuery_def example_failing_runQuery_def example_combine_def example_limit_def
  no_limit_def all_asynchronous_def all_synchronous_def

lemma scenario_minute_ranges:
  assumes "enat 8 \<le> maxLength"
  shows "getRanges_limited maxLength 1644156603000 1644156663000 10000 60000 =
     Some (Inr [(1644156600000, 1644156610000), (1644156620000, 1644156670000)])"
proof -
  have ex: "expandTimeRange 1644156603000 1644156663000 10000 =
      Some (1644156600000, 1644156670000)"
    by (simp add: expandTimeRange_def js_rem_def)
  have "length (point_grid 1644156600000 1644156670000 10000) = 8"
    by (simp add: point_grid_def)
  with assms have "enat (length (point_grid 1644156600000 1644156670000 10000)) \<le> maxLength"
    by simp
  from getRanges_limited_fits [OF _ ex this, of 60000]
  have "getRanges_limited maxLength 1644156603000 1644156663000 10000 60000 =
      getRanges 1644156603000 1644156663000 10000 60000"
    by simp
  also have "\<dots> = Some (Inr [(1644156600000, 1644156610000), (1644156620000, 1644156670000)])"
    by code_simp
  finally show ?thesis .
qed

lemma two_partitions_dispatched:
  assumes "length ps = 2" "\<And>q. \<exists>p. runQuery q = Inr p" "\<And>r. \<not> limit request r"
  shows "dispatched (response_subscribe delivery runQuery cb limit request ps subscriber) =
      [sub_request request ps 2, sub_request request ps 1]"
proof -
  from assms(2) obtain p2 where p2: "runQuery (sub_request request ps 2) = Inr p2"
    by blast
  from assms(2) obtain p1 where p1: "runQuery (sub_request request ps (Suc 0)) = Inr p1"
    by blast
  define acc where "acc = (cb None p2)\<lparr>state := Some Streaming\<rparr>"
  have older: "fst (next_request delivery runQuery cb limit request ps (Some acc) (Suc 0)) @
      snd (next_request delivery runQuery cb limit request ps (Some acc) (Suc 0)) =
      [RunQuery (sub_request request ps (Suc 0)), Combined (cb (Some acc) p1),
       SubscriberNext ((cb (Some acc) p1)\<lparr>state := Some Done\<rparr>)]"
    using next_request_done [where runQuery = runQuery and limit = limit and cb = cb
        and m = "Some acc" and N = "Suc 0" and delivery = delivery and request = request
        and ps = ps, OF p1]
    by (simp add: deliver_total)
  have "fst (next_request delivery runQuery cb limit request ps None 2) @
      snd (next_request delivery runQuery cb limit request ps None 2) =
      RunQuery (sub_request request ps 2) # Combined (cb None p2) #
      (fst (next_request delivery runQuery cb limit request ps (Some acc) (Suc 0)) @
       [SubscriberNext acc]) @
      snd (next_request delivery runQuery cb limit request ps (Some acc) (Suc 0))"
    using next_request_streaming [where runQuery = runQuery and limit = limit and cb = cb
        and m = None and N = 2 and delivery = delivery and request = request
        and ps = ps, OF p2 _ assms(3)]
    by (simp add: deliver_total acc_def)
  then have "dispatched (fst (next_request delivery runQuery cb limit request ps None 2) @
      snd (next_request delivery runQuery cb limit request ps None 2)) =
      sub_request request ps 2 #
      dispatched (fst (next_request delivery runQuery cb limit request ps (Some acc) (Suc 0)) @
       snd (next_request delivery runQuery cb limit request ps (Some acc) (Suc 0)))"
    by (simp add: dispatched_append)
  then show ?thesis
    unfolding older by (simp add: response_subscribe_dispatched assms(1))
qed

section \<open>The scheduler: claims\<close>

text \<open>
  Claim C4 (concrete scenario), as stated, says that the scheduler executes the three
  ranges that the partitioner returns for an ideal range size of 35 s. With the
  timestamps read in UTC, \<open>2022-02-06T14:10:00\<close> is \<open>1644156600000\<close>. The scheduler
  does not take an ideal range size: it calls the partitioner with 60 s. On the request of
  the claim (start \<open>14:10:03\<close>, end \<open>14:11:03\<close>, interval 10 s) it dispatches two
  sub-requests, for \<open>[14:10:20, 14:11:10]\<close> and then for \<open>[14:10:00, 14:10:10]\<close>.
\<close>

theorem scheduler_dispatches_two_counterexample:
  "\<exists>tr. runPartitionedQuery js_max_array_length all_asynchronous example_runQuery
           example_combine no_limit example_request None = Some (Inr tr) \<and>
        map requestId (dispatched tr) = [''A_2'', ''A_1''] \<and>
        map req_range (dispatched tr) =
          [Some \<lparr>range_from = 1644156620000, range_to = 1644156670000\<rparr>,
           Some \<lparr>range_from = 1644156600000, range_to = 1644156610000\<rparr>]"
proof -
  have "enat 8 \<le> js_max_array_length"
    by (simp add: js_max_array_length_def)
  then have "getRanges_limited js_max_array_length 1644156603000 1644156663000 10000
      60000 =
     Some (Inr [(1644156600000, 1644156610000), (1644156620000, 1644156670000)])"
    by (rule scenario_minute_ranges)
  then show ?thesis
    by (simp add: runPartitionedQuery_def scenario_eval)
qed

text \<open>
  Claim C4, amended. For the start \<open>14:10:03\<close>, the end \<open>14:11:03\<close>, a step of 10 s
  and an ideal range size of 35 s the partitioner returns the ranges
  \<open>[14:10:00, 14:10:10]\<close>, \<open>[14:10:20, 14:10:40]\<close>, \<open>[14:10:50, 14:11:10]\<close> in this
  order. The scheduler, which fixes the ideal range size at 60 s, splits a request over
  the same range with an interval of 10 s into \<open>[14:10:00, 14:10:10]\<close> and
  \<open>[14:10:20, 14:11:10]\<close>; when every sub-query succeeds (with whatever response
  \<open>resp\<close> gives, delivered at whatever time) and the limit is never reached, it
  dispatches exactly these two, the newest first, whenever the caller unsubscribes.
\<close>

theorem scheduler_concrete_scenario:
  "getRanges 1644156603000 1644156663000 10000 35000 =
     Some (Inr [(1644156600000, 1644156610000), (1644156620000, 1644156640000),
                (1644156650000, 1644156670000)]) \<and>
   (enat 8 \<le> maxLength \<and>
    req_range request = Some \<lparr>range_from = 1644156603000, range_to = 1644156663000\<rparr> \<and>
    intervalMs request = 10000 \<longrightarrow>
    (\<exists>tr. runPartitionedQuery maxLength delivery (\<lambda>q. Inr (resp q)) combineResponses
             (\<lambda>_ _. False) request subscriber = Some (Inr tr) \<and>
          map req_range (dispatched tr) =
            [Some \<lparr>range_from = 1644156620000, range_to = 1644156670000\<rparr>,
             Some \<lparr>range_from = 1644156600000, range_to = 1644156610000\<rparr>]))"
proof (intro conjI impI)
  show "getRanges 1644156603000 1644156663000 10000 35000 =
     Some (Inr [(1644156600000, 1644156610000), (1644156620000, 1644156640000),
                (1644156650000, 1644156670000)])"
    by code_simp
next
  assume a: "enat 8 \<le> maxLength \<and>
    req_range request = Some \<lparr>range_from = 1644156603000, range_to = 1644156663000\<rparr> \<and>
    intervalMs request = 10000"
  then have ranges: "getRanges_limited maxLength 1644156603000 1644156663000 10000 60000 =
     Some (Inr [(1644156600000, 1644156610000), (1644156620000, 1644156670000)])"
    by (simp add: scenario_minute_ranges)
  from a show "\<exists>tr. runPartitionedQuery maxLength delivery (\<lambda>q. Inr (resp q))
      combineResponses (\<lambda>_ _. False) request subscriber = Some (Inr tr) \<and>
      map req_range (dispatched tr) =
        [Some \<lparr>range_from = 1644156620000, range_to = 1644156670000\<rparr>,
         Some \<lparr>range_from = 1644156600000, range_to = 1644156610000\<rparr>]"
    by (simp add: runPartitionedQuery_def ranges two_partitions_dispatched sub_request_def)
qed

theorem scheduler_concrete_scenario_witness:
  "getRanges 1644156603000 1644156663000 10000 35000 =
     Some (Inr [(1644156600000, 1644156610000), (1644156620000, 1644156640000),
                (1644156650000, 1644156670000)]) \<and>
   (\<exists>tr. runPartitionedQuery js_max_array_length all_synchronous
            (\<lambda>q. Inr \<lparr>data = [requestId q], state = None\<rparr>) example_combine
            (\<lambda>_ _. False) example_request (Some 1) = Some (Inr tr) \<and>
         map req_range (dispatched tr) =
           [Some \<lparr>range_from = 1644156620000, range_to = 1644156670000\<rparr>,
            Some \<lparr>range_from = 1644156600000, range_to = 1644156610000\<rparr>])"
proof -
  have "enat 8 \<le> js_max_array_length"
    by (simp add: js_max_array_length_def)
  moreover have "req_range example_request =
      Some \<lparr>range_from = 1644156603000, range_to = 1644156663000\<rparr>"
    and "intervalMs example_request = 10000"
    by (simp_all add: example_request_def)
  ultimately show ?thesis
    using scheduler_concrete_scenario [of js_max_array_length example_request all_synchronous
        "\<lambda>q. \<lparr>data = [requestId q], state = None\<rparr>" example_combine "Some 1"]
    by simp
qed

text \<open>
  Claim C5 (failure), as stated, says that the output sequence ends with an error event
  that carries the accumulator merged so far. In the scenario of the claim (the second of
  three sub-queries fails) the caller receives the one \<open>Streaming\<close> value of the newest
  partition and no error or completion notification at all; the oldest partition is not
  dispatched.
\<close>

theorem failure_emits_no_error_counterexample:
  "emitted (response_subscribe all_asynchronous example_failing_runQuery example_combine
      no_limit example_request example_partitions None)
     = [\<lparr>data = [''A_3''], state = Some Streaming\<rparr>] \<and>
   terminal_events (response_subscribe all_asynchronous example_failing_runQuery
      example_combine no_limit example_request example_partitions None) = [] \<and>
   map requestId (dispatched (response_subscribe all_asynchronous example_failing_runQuery
      example_combine no_limit example_request example_partitions None)) = [''A_3'', ''A_2'']"
  by (simp add: scenario_eval)

text \<open>
  Claim C5, amended. The subscription to a sub-query has no error handler and the source
  never calls \<^verbatim>\<open>subscriber.error\<close> or \<^verbatim>\<open>subscriber.complete\<close>: whatever the inputs, the
  caller receives no error and no completion notification, and nothing happens after a
  failed sub-query (no older partition is dispatched, nothing is merged or emitted). When
  the second of three sub-queries fails, the limit not being reached after the first, the
  run is: dispatch of the newest partition, its merge, dispatch of the second, the
  \<open>Streaming\<close> emission of the first accumulator, and the unhandled failure; this
  whether the responses are delivered synchronously or not.
\<close>

theorem failure_stops_scheduler:
  "terminal_events (response_subscribe delivery runQuery combineResponses resultLimitReached
      request partitions subscriber) = [] \<and>
   after_failure (response_subscribe delivery runQuery combineResponses resultLimitReached
      request partitions subscriber) = [] \<and>
   (length partitions = 3 \<and>
    runQuery (sub_request request partitions 3) = Inr r3 \<and>
    \<not> resultLimitReached request (combineResponses None r3) \<and>
    runQuery (sub_request request partitions 2) = Inl err \<longrightarrow>
    response_subscribe delivery runQuery combineResponses resultLimitReached request partitions
        None =
      [RunQuery (sub_request request partitions 3),
       Combined (combineResponses None r3),
       RunQuery (sub_request request partitions 2),
       SubscriberNext ((combineResponses None r3)\<lparr>state := Some Streaming\<rparr>),
       UnhandledError err])"
proof (intro conjI impI)
  show "terminal_events (response_subscribe delivery runQuery combineResponses
      resultLimitReached request partitions subscriber) = []"
    by (simp add: response_subscribe_trace terminal_events_append terminal_events_receives
        chain_no_terminal)
  show "after_failure (response_subscribe delivery runQuery combineResponses
      resultLimitReached request partitions subscriber) = []"
  proof (cases "subscriber = Some 0")
    case True
    have "\<forall>e. UnhandledError e \<notin> set (fst (next_request delivery runQuery combineResponses
        resultLimitReached request partitions None (length partitions)) @ [Unsubscribed])"
      using chain_failure_last [of delivery runQuery combineResponses resultLimitReached
          request partitions None "length partitions"]
      by simp
    from after_failure_append [OF this] True show ?thesis
      by (simp add: response_subscribe_trace after_failure_receives chain_failure_last)
  next
    case False
    have "after_failure (fst (next_request delivery runQuery combineResponses
        resultLimitReached request partitions None (length partitions)) @
        snd (next_request delivery runQuery combineResponses
        resultLimitReached request partitions None (length partitions))) = []"
      using chain_failure_last [of delivery runQuery combineResponses resultLimitReached
          request partitions None "length partitions"]
      by (simp add: after_failure_append)
    with False show ?thesis
      by (simp add: response_subscribe_trace after_failure_receives)
  qed
next
  assume a: "length partitions = 3 \<and>
    runQuery (sub_request request partitions 3) = Inr r3 \<and>
    \<not> resultLimitReached request (combineResponses None r3) \<and>
    runQuery (sub_request request partitions 2) = Inl err"
  then have len: "length partitions = 3"
    and q3: "runQuery (sub_request request partitions 3) = Inr r3"
    and nl: "\<not> resultLimitReached request (combineResponses None r3)"
    and q2: "runQuery (sub_request request partitions 2) = Inl err"
    by simp_all
  have second: "next_request delivery runQuery combineResponses resultLimitReached request
      partitions (Some ((combineResponses None r3)\<lparr>state := Some Streaming\<rparr>)) 2 =
        ([RunQuery (sub_request request partitions 2)], [UnhandledError err])"
    using q2 by (simp add: next_request_fail [where runQuery = runQuery])
  have "fst (next_request delivery runQuery combineResponses resultLimitReached request
        partitions None 3) @
      snd (next_request delivery runQuery combineResponses resultLimitReached request
        partitions None 3) =
      [RunQuery (sub_request request partitions 3),
       Combined (combineResponses None r3),
       RunQuery (sub_request request partitions 2),
       SubscriberNext ((combineResponses None r3)\<lparr>state := Some Streaming\<rparr>),
       UnhandledError err]"
    unfolding next_request_streaming [where runQuery = runQuery and limit = resultLimitReached
        and cb = combineResponses and m = None and N = 3, OF q3 _ nl, simplified] second
    by (simp add: deliver_total)
  then show "response_subscribe delivery runQuery combineResponses resultLimitReached request
      partitions None =
      [RunQuery (sub_request request partitions 3),
       Combined (combineResponses None r3),
       RunQuery (sub_request request partitions 2),
       SubscriberNext ((combineResponses None r3)\<lparr>state := Some Streaming\<rparr>),
       UnhandledError err]"
    by (simp add: response_subscribe_trace len subscriber_receives_never)
qed

theorem failure_stops_scheduler_witness:
  "response_subscribe all_synchronous example_failing_runQuery example_combine no_limit
      example_request example_partitions None =
     [RunQuery (sub_request example_request example_partitions 3),
      Combined \<lparr>data = [''A_3''], state = None\<rparr>,
      RunQuery (sub_request example_request example_partitions 2),
      SubscriberNext \<lparr>data = [''A_3''], state = Some Streaming\<rparr>,
      UnhandledError ''timeout'']"
proof -
  have "length example_partitions = 3"
    by (simp add: example_partitions_def)
  moreover have "example_failing_runQuery (sub_request example_request example_partitions 3)
      = Inr \<lparr>data = [''A_3''], state = None\<rparr>"
    by (simp add: scenario_eval)
  moreover have "\<not> no_limit example_request (example_combine None \<lparr>data = [''A_3''], state = None\<rparr>)"
    by (simp add: no_limit_def)
  moreover have "example_failing_runQuery (sub_request example_request example_partitions 2)
      = Inl ''timeout''"
    by (simp add: scenario_eval)
  ultimately show ?thesis
    using failure_stops_scheduler [of all_synchronous example_failing_runQuery example_combine
        no_limit example_request example_partitions None "\<lparr>data = [''A_3''], state = None\<rparr>"
        "''timeout''"]
    by (simp add: example_combine_def)
qed

text \<open>
  Claim C6 (early stop). With five partitions, when the two newest sub-queries succeed
  and the limit predicate is false on the accumulator of the first merge and true on the
  accumulator of the second, exactly the two newest sub-requests are dispatched and
  exactly two values are emitted. The handler of a response starts the next sub-query
  before it passes its own value to the caller: when the response of the second sub-query
  is delivered asynchronously the first value emitted is the \<open>Streaming\<close> one and the
  second the \<open>Done\<close> one, as the claim says; when it is delivered synchronously (an
  observable made with \<^verbatim>\<open>of()\<close>) the \<open>Done\<close> value is emitted first and the
  \<open>Streaming\<close> value of the older accumulator after it.
\<close>

theorem limit_stops_after_two:
  assumes "length partitions = 5"
    and "runQuery (sub_request request partitions 5) = Inr r5"
    and "runQuery (sub_request request partitions 4) = Inr r4"
    and "\<not> resultLimitReached request (combineResponses None r5)"
    and "resultLimitReached request
           (combineResponses (Some ((combineResponses None r5)\<lparr>state := Some Streaming\<rparr>)) r4)"
  shows "dispatched (response_subscribe delivery runQuery combineResponses resultLimitReached
        request partitions None) =
      [sub_request request partitions 5, sub_request request partitions 4] \<and>
    (delivery (sub_request request partitions 4) = Asynchronous \<longrightarrow>
     emitted (response_subscribe delivery runQuery combineResponses resultLimitReached request
        partitions None) =
      [(combineResponses None r5)\<lparr>state := Some Streaming\<rparr>,
       (combineResponses (Some ((combineResponses None r5)\<lparr>state := Some Streaming\<rparr>)) r4)
          \<lparr>state := Some Done\<rparr>]) \<and>
    (delivery (sub_request request partitions 4) = Synchronous \<longrightarrow>
     emitted (response_subscribe delivery runQuery combineResponses resultLimitReached request
        partitions None) =
      [(combineResponses (Some ((combineResponses None r5)\<lparr>state := Some Streaming\<rparr>)) r4)
          \<lparr>state := Some Done\<rparr>,
       (combineResponses None r5)\<lparr>state := Some Streaming\<rparr>])"
proof -
  define acc1 where "acc1 = (combineResponses None r5)\<lparr>state := Some Streaming\<rparr>"
  define acc2 where "acc2 = (combineResponses (Some acc1) r4)\<lparr>state := Some Done\<rparr>"
  define sr5 where "sr5 = sub_request request partitions 5"
  define sr4 where "sr4 = sub_request request partitions 4"
  have second: "next_request delivery runQuery combineResponses resultLimitReached request
      partitions (Some acc1) 4 =
        deliver (delivery sr4) (RunQuery sr4)
          [Combined (combineResponses (Some acc1) r4), SubscriberNext acc2] []"
    using next_request_done [where runQuery = runQuery and limit = resultLimitReached
        and cb = combineResponses and m = "Some acc1" and N = 4 and delivery = delivery,
        OF assms(3)] assms(5)
    by (simp add: acc1_def acc2_def sr4_def)
  have first: "next_request delivery runQuery combineResponses resultLimitReached request
      partitions None 5 =
        deliver (delivery sr5) (RunQuery sr5)
          (Combined (combineResponses None r5) #
             fst (deliver (delivery sr4) (RunQuery sr4)
                [Combined (combineResponses (Some acc1) r4), SubscriberNext acc2] []) @
             [SubscriberNext acc1])
          (snd (deliver (delivery sr4) (RunQuery sr4)
                [Combined (combineResponses (Some acc1) r4), SubscriberNext acc2] []))"
    using next_request_streaming [where runQuery = runQuery and limit = resultLimitReached
        and cb = combineResponses and m = None and N = 5 and delivery = delivery,
        OF assms(2) _ assms(4)]
    by (simp add: acc1_def [symmetric] sr5_def [symmetric] second)
  have tr: "response_subscribe delivery runQuery combineResponses resultLimitReached request
      partitions None =
        RunQuery sr5 # Combined (combineResponses None r5) #
          fst (deliver (delivery sr4) (RunQuery sr4)
                [Combined (combineResponses (Some acc1) r4), SubscriberNext acc2] []) @
          [SubscriberNext acc1] @
          snd (deliver (delivery sr4) (RunQuery sr4)
                [Combined (combineResponses (Some acc1) r4), SubscriberNext acc2] [])"
    by (simp add: response_subscribe_trace assms(1) subscriber_receives_never first
        deliver_total)
  show ?thesis
    unfolding tr acc1_def [symmetric] acc2_def [symmetric] sr5_def [symmetric]
      sr4_def [symmetric]
    by (cases "delivery sr4") (simp_all add: deliver_def)
qed

theorem limit_stops_after_two_witness:
  "map requestId (dispatched (response_subscribe all_synchronous example_runQuery
      example_combine (example_limit 2) example_request example_five_partitions None))
     = [''A_5'', ''A_4''] \<and>
   emitted (response_subscribe all_synchronous example_runQuery example_combine
      (example_limit 2) example_request example_five_partitions None) =
     [\<lparr>data = [''A_5'', ''A_4''], state = Some Done\<rparr>,
      \<lparr>data = [''A_5''], state = Some Streaming\<rparr>] \<and>
   emitted (response_subscribe all_asynchronous example_runQuery example_combine
      (example_limit 2) example_request example_five_partitions None) =
     [\<lparr>data = [''A_5''], state = Some Streaming\<rparr>,
      \<lparr>data = [''A_5'', ''A_4''], state = Some Done\<rparr>]"
proof -
  have "length example_five_partitions = 5"
    by (simp add: example_five_partitions_def)
  moreover have "example_runQuery (sub_request example_request example_five_partitions 5)
      = Inr \<lparr>data = [''A_5''], state = None\<rparr>"
    by (simp add: scenario_eval)
  moreover have "example_runQuery (sub_request example_request example_five_partitions 4)
      = Inr \<lparr>data = [''A_4''], state = None\<rparr>"
    by (simp add: scenario_eval)
  moreover have "\<not> example_limit 2 example_request
      (example_combine None \<lparr>data = [''A_5''], state = None\<rparr>)"
    by (simp add: example_limit_def example_combine_def)
  moreover have "example_limit 2 example_request
      (example_combine (Some ((example_combine None \<lparr>data = [''A_5''], state = None\<rparr>)
          \<lparr>state := Some Streaming\<rparr>)) \<lparr>data = [''A_4''], state = None\<rparr>)"
    by (simp add: example_limit_def example_combine_def)
  ultimately show ?thesis
    using limit_stops_after_two [of example_five_partitions example_runQuery example_request
        "\<lparr>data = [''A_5''], state = None\<rparr>" "\<lparr>data = [''A_4''], state = None\<rparr>"
        "example_limit 2" example_combine all_synchronous]
      limit_stops_after_two [of example_five_partitions example_runQuery example_request
        "\<lparr>data = [''A_5''], state = None\<rparr>" "\<lparr>data = [''A_4''], state = None\<rparr>"
        "example_limit 2" example_combine all_asynchronous]
    by (simp add: example_combine_def sub_request_def example_request_def string_of_nat_digit
        digit_char_def all_synchronous_def all_asynchronous_def)
qed

text \<open>
  Claim C7 (sub-request identifiers), as stated, says that the first executed, newest
  partition receives \<open>N = 1\<close>. With three partitions the sub-requests are dispatched
  with the identifiers \<open>A_3\<close>, \<open>A_2\<close>, \<open>A_1\<close>, in this order.
\<close>

theorem first_executed_gets_highest_id_counterexample:
  "map requestId (dispatched (response_subscribe all_asynchronous example_runQuery
      example_combine no_limit example_request example_partitions None))
     = [''A_3'', ''A_2'', ''A_1'']"
  by (simp add: scenario_eval)

text \<open>
  Claim C7, amended. At least one sub-query is dispatched, and the \<open>i\<close>-th dispatched
  sub-request (counting from 0) carries the identifier \<open>requestId_N\<close> with
  \<open>N = length partitions - i\<close>, the position of its partition in chronological order
  counted from 1, and that partition as its range: \<open>N\<close> counts down in execution order,
  the newest partition receiving the number of partitions.
\<close>

theorem sub_request_ids:
  "dispatched (response_subscribe delivery runQuery combineResponses resultLimitReached request
      partitions subscriber) \<noteq> [] \<and>
   (\<forall>i < length (dispatched (response_subscribe delivery runQuery combineResponses
        resultLimitReached request partitions subscriber)).
      requestId (dispatched (response_subscribe delivery runQuery combineResponses
          resultLimitReached request partitions subscriber) ! i)
        = requestId request @ ''_'' @ string_of_nat (length partitions - i) \<and>
      req_range (dispatched (response_subscribe delivery runQuery combineResponses
          resultLimitReached request partitions subscriber) ! i)
        = (if i < length partitions then Some (partitions ! (length partitions - 1 - i))
           else None))"
proof -
  define n where "n = length partitions"
  define ds where "ds = dispatched (response_subscribe delivery runQuery combineResponses
      resultLimitReached request partitions subscriber)"
  have ds: "ds = dispatched
      (fst (next_request delivery runQuery combineResponses resultLimitReached request
              partitions None n) @
       snd (next_request delivery runQuery combineResponses resultLimitReached request
              partitions None n))"
    unfolding ds_def n_def by (rule response_subscribe_dispatched)
  from chain_dispatched [of delivery runQuery combineResponses resultLimitReached request
      partitions None n]
  have ne: "ds \<noteq> []"
    and all: "\<And>i. i < length ds \<Longrightarrow> ds ! i = sub_request request partitions (n - i)"
    unfolding ds [symmetric] by blast+
  have fields: "requestId (sub_request request partitions (n - i))
        = requestId request @ ''_'' @ string_of_nat (n - i) \<and>
      req_range (sub_request request partitions (n - i))
        = (if i < n then Some (partitions ! (n - 1 - i)) else None)" for i
    by (auto simp: sub_request_def Let_def n_def)
  show ?thesis
    unfolding ds_def [symmetric] n_def [symmetric]
  proof (intro conjI allI impI)
    show "ds \<noteq> []"
      by (rule ne)
  next
    fix i assume "i < length ds"
    from all [OF this] fields [of i]
    show "requestId (ds ! i) = requestId request @ ''_'' @ string_of_nat (n - i)"
      and "req_range (ds ! i) = (if i < n then Some (partitions ! (n - 1 - i)) else None)"
      by simp_all
  qed
qed

theorem sub_request_ids_witness:
  "requestId (dispatched (response_subscribe all_asynchronous example_runQuery example_combine
       no_limit example_request example_partitions None) ! 0) = ''A_3'' \<and>
   req_range (dispatched (response_subscribe all_asynchronous example_runQuery example_combine
       no_limit example_request example_partitions None) ! 0)
     = Some \<lparr>range_from = 1644156650000, range_to = 1644156670000\<rparr> \<and>
   requestId (dispatched (response_subscribe all_asynchronous example_runQuery example_combine
       no_limit example_request example_partitions None) ! 2) = ''A_1'' \<and>
   req_range (dispatched (response_subscribe all_asynchronous example_runQuery example_combine
       no_limit example_request example_partitions None) ! 2)
     = Some \<lparr>range_from = 1644156600000, range_to = 1644156610000\<rparr>"
proof -
  have len: "length (dispatched (response_subscribe all_asynchronous example_runQuery
       example_combine no_limit example_request example_partitions None)) = 3"
    by (simp add: scenario_eval)
  have "0 < (3::nat)" "2 < (3::nat)"
    by simp_all
  with sub_request_ids [of all_asynchronous example_runQuery example_combine no_limit
      example_request example_partitions None] len
  show ?thesis
    by (simp add: example_partitions_def example_request_def string_of_nat_digit digit_char_def)
qed

text \<open>
  Claim C9 (cancellation), as stated, says that after the caller has unsubscribed no
  further sub-query is dispatched and no result is merged. With three partitions and a
  caller that unsubscribes on the first value, the sub-request \<open>A_1\<close> is dispatched
  after the unsubscription and two more results are merged.
\<close>

theorem unsubscribe_does_not_stop_queries_counterexample:
  "map requestId (dispatched (after_unsubscribe (response_subscribe all_asynchronous
      example_runQuery example_combine no_limit example_request example_partitions (Some 1))))
     = [''A_1''] \<and>
   map data (combined (after_unsubscribe (response_subscribe all_asynchronous example_runQuery
      example_combine no_limit example_request example_partitions (Some 1))))
     = [[''A_3'', ''A_2''], [''A_3'', ''A_2'', ''A_1'']]"
  by (simp add: scenario_eval)

text \<open>
  Claim C9, amended. After the caller has unsubscribed, at whatever point, no further
  value is emitted to it.
\<close>

theorem nothing_emitted_after_unsubscribe:
  "emitted (after_unsubscribe (response_subscribe delivery runQuery combineResponses
      resultLimitReached request partitions subscriber)) = []"
proof (cases "subscriber = Some 0")
  case True
  have "after_unsubscribe
      (fst (next_request delivery runQuery combineResponses resultLimitReached request
              partitions None (length partitions)) @
       Unsubscribed # subscriber_receives (Some 0)
         (snd (next_request delivery runQuery combineResponses resultLimitReached request
                 partitions None (length partitions)))) =
      subscriber_receives (Some 0)
         (snd (next_request delivery runQuery combineResponses resultLimitReached request
                 partitions None (length partitions)))"
    by (simp add: after_unsubscribe_append chain_no_unsubscribe)
  with True show ?thesis
    by (simp add: response_subscribe_trace emitted_receives_closed)
next
  case False
  have "Unsubscribed \<notin> set
      (fst (next_request delivery runQuery combineResponses resultLimitReached request
              partitions None (length partitions)) @
       snd (next_request delivery runQuery combineResponses resultLimitReached request
              partitions None (length partitions)))"
    by (simp add: chain_no_unsubscribe)
  from after_unsubscribe_receives [OF this] False show ?thesis
    by (simp add: response_subscribe_trace)
qed

end
